theory Spec2Isabelle
  imports Main "HOL-Library.AList" "HOL-Library.Product_Lexorder"
begin

section \<open>Python values used by the containers\<close>

text \<open>
  The exceptions the modelled code can raise. A failing call is a value: the error,
  together with the state the object is left in where a claim needs it.
\<close>

datatype error = KeyError | TypeError | AttributeError | IndexError | ValueError | OverflowError

text \<open>
  A Python \<open>dict\<close> is an association list in insertion order: \<open>d[k] = v\<close> replaces the
  value of a present key in place and appends a new key (\<open>AList.update\<close>), \<open>del d[k]\<close>
  raises \<open>KeyError\<close> for a missing key, \<open>len(d)\<close> is the number of entries.
\<close>

type_synonym ('k, 'v) dict = "('k \<times> 'v) list"

definition contains :: "'k \<Rightarrow> ('k, 'v) dict \<Rightarrow> bool" where
  "contains k d = (k \<in> set (map fst d))"

definition setitem :: "'k \<Rightarrow> 'v \<Rightarrow> ('k, 'v) dict \<Rightarrow> ('k, 'v) dict" where
  "setitem k v d = AList.update k v d"

definition delitem :: "'k \<Rightarrow> ('k, 'v) dict \<Rightarrow> error + ('k, 'v) dict" where
  "delitem k d = (if contains k d then Inr (AList.delete k d) else Inl KeyError)"

definition dict_update :: "('k, 'v) dict \<Rightarrow> ('k, 'v) dict \<Rightarrow> ('k, 'v) dict" where
  "dict_update d other = fold (\<lambda>(k, v). setitem k v) other d"

text \<open>
  A Python \<open>set\<close> is a list without repetitions. \<open>s.remove(x)\<close> raises \<open>KeyError\<close>
  when \<open>x\<close> is not a member; item assignment \<open>s[k] = v\<close> is not supported by sets and
  raises \<open>TypeError\<close> whatever the key and the value are.
\<close>

type_synonym 'a pyset = "'a list"

definition set_update :: "'a pyset \<Rightarrow> 'a pyset \<Rightarrow> 'a pyset" where
  "set_update s other = fold List.insert other s"

definition set_remove :: "'a \<Rightarrow> 'a pyset \<Rightarrow> error + 'a pyset" where
  "set_remove x s = (if x \<in> set s then Inr (removeAll x s) else Inl KeyError)"

definition set_setitem :: "'k \<Rightarrow> 'a \<Rightarrow> 'a pyset \<Rightarrow> error + 'a pyset" where
  "set_setitem k x s = Inl TypeError"

section \<open>Entities\<close>

text \<open>
  Modelled from the spec: the classes Node, Edge and Path are not in src. The spec
  (section 3) gives a node an identifier, an edge an identifier, an ordered pair of node
  references (tail \<open>v\<close>, head \<open>w\<close>) and a directedness flag, and a path an identifier and
  its node and edge sequences. Two node references are equal when they carry the same
  identifier. \<open>edge.nodes\<close> is the dictionary of the edge's endpoints keyed by identifier,
  tail first, so a self-loop has one entry.
\<close>

datatype node = Node (node_uid: string)

datatype edge = Edge (edge_uid: string) (edge_v: node) (edge_w: node) (edge_directed: bool)

datatype path = Path (path_uid: string) (path_nodes: "string list") (path_edges: "string list")

definition edge_nodes :: "edge \<Rightarrow> node list" where
  \<comment> \<open>Modelled from the spec: Edge.nodes, the endpoints keyed by identifier.\<close>
  "edge_nodes e = (if edge_v e = edge_w e then [edge_v e] else [edge_v e, edge_w e])"

section \<open>RelatedObjects\<close>

text \<open>
  \<open>RelatedObjects.__init__\<close>: two dictionaries and a set. The field \<open>paths\<close> is a Python
  \<open>set\<close>, and stays one under every method of the class.
\<close>

record related_objects =
  nodes :: "(string, node) dict"
  edges :: "(string, edge) dict"
  paths :: "path pyset"

definition RelatedObjects :: related_objects where
  "RelatedObjects = \<lparr>nodes = [], edges = [], paths = []\<rparr>"

definition rel_update :: "related_objects \<Rightarrow> related_objects \<Rightarrow> related_objects" where
  "rel_update r other =
     r\<lparr>nodes := dict_update (nodes r) (nodes other),
       edges := dict_update (edges r) (edges other),
       paths := set_update (paths r) (paths other)\<rparr>"

definition rel_add_edge :: "related_objects \<Rightarrow> edge \<Rightarrow> related_objects" where
  "rel_add_edge r e = r\<lparr>edges := setitem (edge_uid e) e (edges r)\<rparr>"

definition rel_remove_edge :: "related_objects \<Rightarrow> edge \<Rightarrow> error + related_objects" where
  "rel_remove_edge r e =
     (case delitem (edge_uid e) (edges r) of
        Inl err \<Rightarrow> Inl err
      | Inr d \<Rightarrow> Inr (r\<lparr>edges := d\<rparr>))"

definition rel_add_node :: "related_objects \<Rightarrow> node \<Rightarrow> related_objects" where
  "rel_add_node r n = r\<lparr>nodes := setitem (node_uid n) n (nodes r)\<rparr>"

definition rel_remove_node :: "related_objects \<Rightarrow> node \<Rightarrow> error + related_objects" where
  "rel_remove_node r n =
     (case delitem (node_uid n) (nodes r) of
        Inl err \<Rightarrow> Inl err
      | Inr d \<Rightarrow> Inr (r\<lparr>nodes := d\<rparr>))"

text \<open>
  \<open>add_path\<close> is \<open>self.paths[path.uid] = path\<close>, an item assignment on the set.
  \<open>remove_path\<close> rebuilds the set and removes the path object itself (not its
  identifier).
\<close>

definition rel_add_path :: "related_objects \<Rightarrow> path \<Rightarrow> error + related_objects" where
  "rel_add_path r p =
     (case set_setitem (path_uid p) p (paths r) of
        Inl err \<Rightarrow> Inl err
      | Inr s \<Rightarrow> Inr (r\<lparr>paths := s\<rparr>))"

definition rel_remove_path :: "related_objects \<Rightarrow> path \<Rightarrow> error + related_objects" where
  "rel_remove_path r p =
     (case set_remove p [q \<leftarrow> paths r. True] of
        Inl err \<Rightarrow> Inl err
      | Inr s \<Rightarrow> Inr (r\<lparr>paths := s\<rparr>))"

section \<open>BaseDict\<close>

text \<open>
  \<open>BaseDict\<close> is a dictionary from identifiers to objects with a second dictionary
  \<open>_related\<close>. \<open>_related\<close> is a \<open>defaultdict(dict)\<close>: reading a missing key stores an empty
  plain \<open>dict\<close> under it and returns that; a plain dict has none of the methods of
  RelatedObjects. An entry is therefore a RelatedObjects record or a plain dict.
  The subclasses extend the record, as the Python classes extend \<open>BaseDict\<close>.
\<close>

datatype related_entry = Rel related_objects | PlainDict

record 'v base_dict =
  items :: "(string, 'v) dict"
  related :: "(string, related_entry) dict"

text \<open>A failing method leaves the object in the state reached when the exception was raised.\<close>

type_synonym 's result = "(error \<times> 's) + 's"

fun seq :: "('s \<Rightarrow> 's result) list \<Rightarrow> 's \<Rightarrow> 's result" where
  "seq [] s = Inr s"
| "seq (f # fs) s = (case f s of Inl x \<Rightarrow> Inl x | Inr s' \<Rightarrow> seq fs s')"

text \<open>
  \<open>BaseDict.__setitem__\<close> stores a new RelatedObjects record under the key, then the
  value. \<open>BaseDict.delete\<close> deletes both entries. \<open>dict.update\<close>, which the subclasses
  use to enter an object, does not go through \<open>__setitem__\<close>.
\<close>

definition bd_setitem :: "string \<Rightarrow> 'v \<Rightarrow> ('v, 'z) base_dict_scheme \<Rightarrow> ('v, 'z) base_dict_scheme" where
  "bd_setitem key val' s =
     (let s1 = s\<lparr>related := setitem key (Rel RelatedObjects) (related s)\<rparr>
      in s1\<lparr>items := setitem key val' (items s1)\<rparr>)"

definition bd_delete :: "string \<Rightarrow> ('v, 'z) base_dict_scheme \<Rightarrow> ('v, 'z) base_dict_scheme result" where
  "bd_delete key s =
     (case delitem key (related s) of
        Inl err \<Rightarrow> Inl (err, s)
      | Inr r \<Rightarrow>
          (let s1 = s\<lparr>related := r\<rparr>
           in case delitem key (items s1) of
                Inl err \<Rightarrow> Inl (err, s1)
              | Inr i \<Rightarrow> Inr (s1\<lparr>items := i\<rparr>)))"

section \<open>NodeDict\<close>

text \<open>
  \<open>NodeDict.__init__\<close>: nine tables keyed by node identifier, six \<open>defaultdict(dict)\<close>
  and three \<open>defaultdict(float)\<close>. The degree tables hold the results of \<open>len\<close>; the
  default \<open>0.0\<close> of a missing key compares equal to \<open>0\<close>, so degrees are natural numbers.
\<close>

record node_dict = "node base_dict" +
  successors :: "(string, (string, node) dict) dict"
  predecessors :: "(string, (string, node) dict) dict"
  outgoing :: "(string, (string, edge) dict) dict"
  incoming :: "(string, (string, edge) dict) dict"
  adjacent_nodes :: "(string, (string, node) dict) dict"
  adjacent_edges :: "(string, (string, edge) dict) dict"
  indegrees :: "(string, nat) dict"
  outdegrees :: "(string, nat) dict"
  degrees :: "(string, nat) dict"

definition NodeDict :: node_dict where
  "NodeDict = \<lparr>items = [], related = [],
     successors = [], predecessors = [], outgoing = [], incoming = [],
     adjacent_nodes = [], adjacent_edges = [],
     indegrees = [], outdegrees = [], degrees = []\<rparr>"

text \<open>
  Reading \<open>d[k]\<close> on a defaultdict: \<open>dd_get\<close> is the value read, \<open>dd_touch\<close> the dictionary
  afterwards (a missing key is stored with the default).
\<close>

definition dd_get :: "('k, 'v) dict \<Rightarrow> 'v \<Rightarrow> 'k \<Rightarrow> 'v" where
  "dd_get d dflt k = (case map_of d k of Some x \<Rightarrow> x | None \<Rightarrow> dflt)"

definition dd_touch :: "('k, 'v) dict \<Rightarrow> 'v \<Rightarrow> 'k \<Rightarrow> ('k, 'v) dict" where
  "dd_touch d dflt k = (if contains k d then d else d @ [(k, dflt)])"

text \<open>\<open>attr[n][k] = v\<close> and \<open>del attr[n][k]\<close> on a table of dictionaries.\<close>

definition attr_set ::
  "('k, ('j, 'v) dict) dict \<Rightarrow> 'k \<Rightarrow> 'j \<Rightarrow> 'v \<Rightarrow> ('k, ('j, 'v) dict) dict" where
  "attr_set a n k v = setitem n (setitem k v (dd_get a [] n)) (dd_touch a [] n)"

definition attr_del ::
  "('k, ('j, 'v) dict) dict \<Rightarrow> 'k \<Rightarrow> 'j \<Rightarrow> ('k, ('j, 'v) dict) dict + ('k, ('j, 'v) dict) dict" where
  "attr_del a n k =
     (case delitem k (dd_get a [] n) of
        Inl err \<Rightarrow> Inl (dd_touch a [] n)
      | Inr d \<Rightarrow> Inr (setitem n d (dd_touch a [] n)))"

text \<open>\<open>NodeDict._update_degrees\<close>: the three pairs in the order of the source.\<close>

definition update_degrees :: "string \<Rightarrow> node_dict \<Rightarrow> node_dict" where
  "update_degrees key s =
     (let s1 = s\<lparr>indegrees := setitem key (length (dd_get (incoming s) [] key)) (indegrees s),
                 incoming := dd_touch (incoming s) [] key\<rparr>;
          s2 = s1\<lparr>outdegrees := setitem key (length (dd_get (outgoing s1) [] key)) (outdegrees s1),
                  outgoing := dd_touch (outgoing s1) [] key\<rparr>
      in s2\<lparr>degrees := setitem key (length (dd_get (adjacent_edges s2) [] key)) (degrees s2),
             adjacent_edges := dd_touch (adjacent_edges s2) [] key\<rparr>)"

text \<open>
  \<open>NodeDict.add_edge\<close>, one pass of its loop for the endpoint \<open>nd\<close>. The only calls that
  can fail are the first two on the related entry, when it is a plain dict:
  \<open>dict.update\<close> with a RelatedObjects argument raises \<open>TypeError\<close>, and a plain dict has
  no \<open>add_edge\<close>. After them the record \<open>r\<close> is the object \<open>self._related[node.uid]\<close>.
\<close>

definition add_edge_tail :: "edge \<Rightarrow> string \<Rightarrow> node_dict \<Rightarrow> node_dict" where
  "add_edge_tail e n s =
     s\<lparr>successors := attr_set (successors s) n (node_uid (edge_w e)) (edge_w e),
       adjacent_nodes := attr_set (adjacent_nodes s) n (node_uid (edge_w e)) (edge_w e),
       outgoing := attr_set (outgoing s) n (edge_uid e) e,
       adjacent_edges := attr_set (adjacent_edges s) n (edge_uid e) e\<rparr>"

definition add_edge_head :: "edge \<Rightarrow> string \<Rightarrow> node_dict \<Rightarrow> node_dict" where
  "add_edge_head e n s =
     s\<lparr>predecessors := attr_set (predecessors s) n (node_uid (edge_v e)) (edge_v e),
       adjacent_nodes := attr_set (adjacent_nodes s) n (node_uid (edge_v e)) (edge_v e),
       incoming := attr_set (incoming s) n (edge_uid e) e,
       adjacent_edges := attr_set (adjacent_edges s) n (edge_uid e) e\<rparr>"

definition add_edge_node :: "edge \<Rightarrow> related_objects option \<Rightarrow> node \<Rightarrow> node_dict \<Rightarrow> node_dict result" where
  "add_edge_node e other nd s =
     (let n = node_uid nd;
          s1 = (if \<not> contains n (related s)
                then s\<lparr>related := setitem n (Rel RelatedObjects) (related s)\<rparr> else s)
      in case dd_get (related s1) PlainDict n of
           PlainDict \<Rightarrow> Inl (case other of None \<Rightarrow> AttributeError | Some x \<Rightarrow> TypeError, s1)
         | Rel r0 \<Rightarrow>
             (let r1 = (case other of None \<Rightarrow> r0 | Some x \<Rightarrow> rel_update r0 x);
                  r2 = rel_add_edge r1 e;
                  r3 = (if nd = edge_v e then rel_add_node r2 (edge_w e) else r2);
                  s3 = (if nd = edge_v e then add_edge_tail e n s1 else s1);
                  r4 = (if nd = edge_w e then rel_add_node r3 (edge_v e) else r3);
                  s4 = (if nd = edge_w e then add_edge_head e n s3 else s3);
                  s5 = update_degrees n (s4\<lparr>related := setitem n (Rel r4) (related s4)\<rparr>)
              in Inr (s5\<lparr>items := setitem n nd (items s5)\<rparr>)))"

definition add_edge :: "edge \<Rightarrow> related_objects option \<Rightarrow> node_dict \<Rightarrow> node_dict result" where
  "add_edge e other s = seq (map (add_edge_node e other) (edge_nodes e)) s"

text \<open>
  \<open>NodeDict.remove_edge\<close>. Every step can raise: a method call on the related entry
  (\<open>AttributeError\<close> on a plain dict, which the read itself may just have stored,
  \<open>KeyError\<close> from the record), and each \<open>del\<close> on a table.
\<close>

definition on_related ::
  "string \<Rightarrow> (related_objects \<Rightarrow> error + related_objects) \<Rightarrow> node_dict \<Rightarrow> node_dict result" where
  "on_related n f s =
     (let s1 = s\<lparr>related := dd_touch (related s) PlainDict n\<rparr>
      in case dd_get (related s) PlainDict n of
           PlainDict \<Rightarrow> Inl (AttributeError, s1)
         | Rel r \<Rightarrow>
             (case f r of
                Inl err \<Rightarrow> Inl (err, s1)
              | Inr r' \<Rightarrow> Inr (s1\<lparr>related := setitem n (Rel r') (related s1)\<rparr>)))"

definition del_in ::
  "(node_dict \<Rightarrow> (string, (string, 'v) dict) dict) \<Rightarrow>
   (((string, (string, 'v) dict) dict \<Rightarrow> (string, (string, 'v) dict) dict) \<Rightarrow> node_dict \<Rightarrow> node_dict) \<Rightarrow>
   string \<Rightarrow> string \<Rightarrow> node_dict \<Rightarrow> node_dict result" where
  "del_in table table_update n k s =
     (case attr_del (table s) n k of
        Inl a \<Rightarrow> Inl (KeyError, table_update (\<lambda>_. a) s)
      | Inr a \<Rightarrow> Inr (table_update (\<lambda>_. a) s))"

definition remove_edge_tail :: "edge \<Rightarrow> string \<Rightarrow> node_dict \<Rightarrow> node_dict result" where
  "remove_edge_tail e n =
     seq [on_related n (\<lambda>r. rel_remove_node r (edge_w e)),
          del_in successors successors_update n (node_uid (edge_w e)),
          del_in adjacent_nodes adjacent_nodes_update n (node_uid (edge_w e)),
          del_in outgoing outgoing_update n (edge_uid e),
          del_in adjacent_edges adjacent_edges_update n (edge_uid e)]"

definition remove_edge_head :: "edge \<Rightarrow> string \<Rightarrow> node_dict \<Rightarrow> node_dict result" where
  "remove_edge_head e n =
     seq [on_related n (\<lambda>r. rel_remove_node r (edge_v e)),
          del_in predecessors predecessors_update n (node_uid (edge_v e)),
          del_in adjacent_nodes adjacent_nodes_update n (node_uid (edge_v e)),
          del_in incoming incoming_update n (edge_uid e),
          del_in adjacent_edges adjacent_edges_update n (edge_uid e)]"

definition remove_edge_node :: "edge \<Rightarrow> node \<Rightarrow> node_dict \<Rightarrow> node_dict result" where
  "remove_edge_node e nd =
     seq [on_related (node_uid nd) (\<lambda>r. rel_remove_edge r e),
          (\<lambda>s. if nd = edge_v e then remove_edge_tail e (node_uid nd) s else Inr s),
          (\<lambda>s. if nd = edge_w e then remove_edge_head e (node_uid nd) s else Inr s),
          (\<lambda>s. Inr (update_degrees (node_uid nd) s))]"

definition remove_edge :: "edge \<Rightarrow> node_dict \<Rightarrow> node_dict result" where
  "remove_edge e s = seq (map (remove_edge_node e) (edge_nodes e)) s"

text \<open>
  \<open>NodeDict.delete\<close>: the key is deleted from each of the nine tables that has it, then
  from \<open>_related\<close> and from the dictionary itself (\<open>KeyError\<close> when missing).
\<close>

definition discard :: "'k \<Rightarrow> ('k, 'v) dict \<Rightarrow> ('k, 'v) dict" where
  "discard k d = (if contains k d then AList.delete k d else d)"

definition delete_properties :: "string \<Rightarrow> node_dict \<Rightarrow> node_dict" where
  "delete_properties key s =
     s\<lparr>successors := discard key (successors s),
       predecessors := discard key (predecessors s),
       outgoing := discard key (outgoing s),
       incoming := discard key (incoming s),
       adjacent_nodes := discard key (adjacent_nodes s),
       adjacent_edges := discard key (adjacent_edges s),
       indegrees := discard key (indegrees s),
       outdegrees := discard key (outdegrees s),
       degrees := discard key (degrees s)\<rparr>"

definition nd_delete :: "string \<Rightarrow> node_dict \<Rightarrow> node_dict result" where
  "nd_delete key s = bd_delete key (delete_properties key s)"

text \<open>A call of the NodeDict interface, and a run of calls that stops at the first exception.\<close>

datatype call = AddEdge edge "related_objects option" | RemoveEdge edge

fun do_call :: "call \<Rightarrow> node_dict \<Rightarrow> node_dict result" where
  "do_call (AddEdge e other) s = add_edge e other s"
| "do_call (RemoveEdge e) s = remove_edge e s"

definition run :: "call list \<Rightarrow> node_dict \<Rightarrow> node_dict result" where
  "run cs s = seq (map do_call cs) s"

text \<open>
  A caller that catches the exception of a failed call goes on with the state the call
  left: \<open>run_catching\<close> is the state after a list of calls made that way.
\<close>

definition state_after :: "node_dict result \<Rightarrow> node_dict" where
  "state_after r = (case r of Inl (err, s) \<Rightarrow> s | Inr s \<Rightarrow> s)"

definition completed :: "node_dict result \<Rightarrow> bool" where
  "completed r = (case r of Inl x \<Rightarrow> False | Inr s \<Rightarrow> True)"

fun run_catching :: "call list \<Rightarrow> node_dict \<Rightarrow> node_dict" where
  "run_catching [] s = s"
| "run_catching (c # cs) s = run_catching cs (state_after (do_call c s))"

text \<open>What the accessors read for a node: the set tables and the cached degrees.\<close>

definition cached :: "(string, nat) dict \<Rightarrow> string \<Rightarrow> nat" where
  "cached d n = dd_get d 0 n"

definition entries :: "(string, (string, 'v) dict) dict \<Rightarrow> string \<Rightarrow> (string, 'v) dict" where
  "entries a n = dd_get a [] n"

section \<open>EdgeDict\<close>

text \<open>
  The property \<open>EdgeDict.directed\<close>; Python's \<open>None\<close> is \<open>None\<close>. \<open>all\<close> of an empty list is
  true.
\<close>

definition ed_directed :: "(edge, 'z) base_dict_scheme \<Rightarrow> bool option" where
  "ed_directed s =
     (if list_all edge_directed (map snd (items s)) then Some True
      else if \<not> list_ex edge_directed (map snd (items s)) then Some False
      else None)"

section \<open>Time\<close>

text \<open>
  A time is a number or one of the two floats \<open>float('-inf')\<close> and \<open>float('inf')\<close>. The
  numbers are any linearly ordered type, \<open>int\<close> in the examples; \<open>-inf\<close> is below and
  \<open>inf\<close> above every number, as in Python's comparisons.
\<close>

datatype 'a time = NegInf | Fin 'a | PosInf

instantiation time :: (linorder) linorder
begin

fun less_eq_time :: "'a time \<Rightarrow> 'a time \<Rightarrow> bool" where
  "less_eq_time NegInf y = True"
| "less_eq_time (Fin a) NegInf = False"
| "less_eq_time (Fin a) (Fin b) = (a \<le> b)"
| "less_eq_time (Fin a) PosInf = True"
| "less_eq_time PosInf NegInf = False"
| "less_eq_time PosInf (Fin b) = False"
| "less_eq_time PosInf PosInf = True"

definition less_time :: "'a time \<Rightarrow> 'a time \<Rightarrow> bool" where
  "less_time x y = (x \<le> y \<and> \<not> y \<le> x)"

instance
proof
  fix x y z :: "'a time"
  show "(x < y) = (x \<le> y \<and> \<not> y \<le> x)"
    by (simp add: less_time_def)
  show "x \<le> x"
    by (cases x) simp_all
  show "x \<le> y \<Longrightarrow> y \<le> z \<Longrightarrow> x \<le> z"
    by (cases x; cases y; cases z) simp_all
  show "x \<le> y \<Longrightarrow> y \<le> x \<Longrightarrow> x = y"
    by (cases x; cases y) simp_all
  show "x \<le> y \<or> y \<le> x"
    by (cases x; cases y) auto
qed

end

section \<open>The interval tree\<close>

text \<open>
  Modelled from the spec: the interval-tree primitive (the package \<open>intervaltree\<close>) is not
  in src. The spec (3, 4.6, glossary) describes a set of entries \<open>(begin, end, data)\<close> of
  half-open intervals, a split of every interval at a point so that no stored interval
  straddles it, and the envelope removal that discards the entries fully contained in a
  range. The operations below follow that description; where it is silent they follow
  the package: an interval with \<open>begin \<ge> end\<close> is refused, the envelope of a range with
  \<open>begin \<ge> end\<close> is empty, and \<open>begin()\<close> and \<open>end()\<close> of an empty tree are \<open>0\<close>.
  The tree is a set of entries, held as a list without repetitions.
\<close>

type_synonym ('a, 'd) interval = "'a time \<times> 'a time \<times> 'd"

type_synonym ('a, 'd) interval_tree = "('a, 'd) interval list"

definition iv_begin :: "('a, 'd) interval \<Rightarrow> 'a time" where
  "iv_begin iv = fst iv"

definition iv_end :: "('a, 'd) interval \<Rightarrow> 'a time" where
  "iv_end iv = fst (snd iv)"

definition iv_data :: "('a, 'd) interval \<Rightarrow> 'd" where
  "iv_data iv = snd (snd iv)"

definition is_null :: "('a::linorder, 'd) interval \<Rightarrow> bool" where
  \<comment> \<open>Modelled from the spec: Interval.is_null.\<close>
  "is_null iv = (iv_end iv \<le> iv_begin iv)"

definition it_add :: "('a::linorder, 'd) interval \<Rightarrow> ('a, 'd) interval_tree \<Rightarrow> error + ('a, 'd) interval_tree" where
  \<comment> \<open>Modelled from the spec: IntervalTree.add.\<close>
  "it_add iv t =
     (if iv \<in> set t then Inr t
      else if is_null iv then Inl ValueError
      else Inr (List.insert iv t))"

definition it_addi ::
  "'a::linorder time \<Rightarrow> 'a time \<Rightarrow> 'd \<Rightarrow> ('a, 'd) interval_tree \<Rightarrow> error + ('a, 'd) interval_tree" where
  \<comment> \<open>Modelled from the spec: IntervalTree.addi.\<close>
  "it_addi b e d t = it_add (b, e, d) t"

fun it_update :: "('a::linorder, 'd) interval list \<Rightarrow> ('a, 'd) interval_tree \<Rightarrow> error + ('a, 'd) interval_tree" where
  \<comment> \<open>Modelled from the spec: IntervalTree.update, one add for each entry.\<close>
  "it_update [] t = Inr t"
| "it_update (iv # ivs) t = (case it_add iv t of Inl err \<Rightarrow> Inl err | Inr t' \<Rightarrow> it_update ivs t')"

definition it_copy :: "('a, 'd) interval_tree \<Rightarrow> ('a, 'd) interval_tree" where
  \<comment> \<open>Modelled from the spec: IntervalTree.copy.\<close>
  "it_copy t = t"

definition it_at :: "'a::linorder time \<Rightarrow> ('a, 'd) interval_tree \<Rightarrow> ('a, 'd) interval list" where
  \<comment> \<open>Modelled from the spec: IntervalTree.at, the entries that contain the point.\<close>
  "it_at p t = [iv \<leftarrow> t. iv_begin iv \<le> p \<and> p < iv_end iv]"

definition it_difference_update :: "('a, 'd) interval list \<Rightarrow> ('a, 'd) interval_tree \<Rightarrow> ('a, 'd) interval_tree" where
  \<comment> \<open>Modelled from the spec: IntervalTree.difference_update.\<close>
  "it_difference_update hitlist t = [iv \<leftarrow> t. iv \<notin> set hitlist]"

definition it_slice :: "'a::linorder time \<Rightarrow> ('a, 'd) interval_tree \<Rightarrow> error + ('a, 'd) interval_tree" where
  \<comment> \<open>Modelled from the spec: IntervalTree.slice, the split at a point.\<close>
  "it_slice point t =
     (let hitlist = [iv \<leftarrow> it_at point t. iv_begin iv < point];
          insertions = concat (map (\<lambda>iv. [(iv_begin iv, point, iv_data iv),
                                           (point, iv_end iv, iv_data iv)]) hitlist)
      in it_update insertions (it_difference_update hitlist t))"

definition it_envelop :: "'a::linorder time \<Rightarrow> 'a time \<Rightarrow> ('a, 'd) interval_tree \<Rightarrow> ('a, 'd) interval list" where
  \<comment> \<open>Modelled from the spec: IntervalTree.envelop, the entries fully contained in the range.\<close>
  "it_envelop b e t =
     (if t = [] then []
      else if e \<le> b then []
      else [iv \<leftarrow> t. b \<le> iv_begin iv \<and> iv_end iv \<le> e])"

definition it_remove_envelop :: "'a::linorder time \<Rightarrow> 'a time \<Rightarrow> ('a, 'd) interval_tree \<Rightarrow> ('a, 'd) interval_tree" where
  \<comment> \<open>Modelled from the spec: IntervalTree.remove_envelop, the envelope removal.\<close>
  "it_remove_envelop b e t = it_difference_update (it_envelop b e t) t"

definition boundaries :: "('a, 'd) interval_tree \<Rightarrow> 'a time list" where
  \<comment> \<open>Modelled from the spec: the boundary table of the tree, all begins and ends.\<close>
  "boundaries t = map iv_begin t @ map iv_end t"

definition it_begin :: "('a::{linorder, zero}, 'd) interval_tree \<Rightarrow> 'a time" where
  \<comment> \<open>Modelled from the spec: IntervalTree.begin, the least boundary.\<close>
  "it_begin t = (case boundaries t of [] \<Rightarrow> Fin 0 | x # xs \<Rightarrow> fold min xs x)"

definition it_end :: "('a::{linorder, zero}, 'd) interval_tree \<Rightarrow> 'a time" where
  \<comment> \<open>Modelled from the spec: IntervalTree.end, the greatest boundary.\<close>
  "it_end t = (case boundaries t of [] \<Rightarrow> Fin 0 | x # xs \<Rightarrow> fold max xs x)"

section \<open>TemporalEdgeCollection\<close>

text \<open>
  The collection holds its edges by identifier, the interval tree \<open>_intervals\<close> and the map
  \<open>_interval_map\<close> from an edge to its set of intervals (a \<open>defaultdict(set)\<close>).
\<close>

record 'a temporal_edge_collection =
  edge_map :: "(string, edge) dict"
  intervals :: "('a, edge) interval_tree"
  interval_map :: "(edge, ('a time \<times> 'a time) pyset) dict"

definition TemporalEdgeCollection :: "'a temporal_edge_collection" where
  "TemporalEdgeCollection = \<lparr>edge_map = [], intervals = [], interval_map = []\<rparr>"

definition record_interval ::
  "edge \<Rightarrow> 'a::linorder time \<Rightarrow> 'a time \<Rightarrow> 'a temporal_edge_collection \<Rightarrow> error + 'a temporal_edge_collection" where
  "record_interval e b en c =
     (case it_addi b en e (intervals c) of
        Inl err \<Rightarrow> Inl err
      | Inr t \<Rightarrow>
          Inr (c\<lparr>intervals := t,
                 interval_map := setitem e (List.insert (b, en) (dd_get (interval_map c) [] e))
                                   (dd_touch (interval_map c) [] e)\<rparr>))"

text \<open>
  \<open>_if_edge_exists\<close> for an edge object or identifier that is in the collection (the
  lookup \<open>self[edge]\<close> raises \<open>KeyError\<close> otherwise), with the keywords \<open>begin\<close> and \<open>end\<close>.
\<close>

definition if_edge_exists ::
  "edge \<Rightarrow> 'a::linorder time \<Rightarrow> 'a time \<Rightarrow> 'a temporal_edge_collection \<Rightarrow> error + 'a temporal_edge_collection" where
  "if_edge_exists e b en c =
     (case map_of (edge_map c) (edge_uid e) of
        None \<Rightarrow> Inl KeyError
      | Some e' \<Rightarrow> record_interval e' b en c)"

text \<open>
  \<open>_add\<close>: the interval is read from the edge's attributes \<open>begin\<close> and \<open>end\<close>, here the two
  arguments, then the edge is entered by the base class.
\<close>

definition tec_add_new ::
  "edge \<Rightarrow> 'a::linorder time \<Rightarrow> 'a time \<Rightarrow> 'a temporal_edge_collection \<Rightarrow> error + 'a temporal_edge_collection" where
  "tec_add_new e b en c =
     (case record_interval e b en c of
        Inl err \<Rightarrow> Inl err
      | Inr c' \<Rightarrow> Inr (c'\<lparr>edge_map := setitem (edge_uid e) e (edge_map c')\<rparr>))"

text \<open>
  Modelled from the spec: \<open>EdgeCollection.add\<close> is not in src. By the spec (4.6, 8) an
  insertion \<open>add(edge, begin=b, end=e)\<close> enters the entry \<open>(b, e, edge)\<close> in the tree,
  and each insertion of an edge that is already there adds an interval rather than
  replacing one. So \<open>add\<close> passes an edge whose identifier is stored to \<open>_if_edge_exists\<close>
  and a new edge, carrying the two keywords as its attributes, to \<open>_add\<close>.
\<close>

definition tec_add ::
  "edge \<Rightarrow> 'a::linorder time \<Rightarrow> 'a time \<Rightarrow> 'a temporal_edge_collection \<Rightarrow> error + 'a temporal_edge_collection" where
  \<comment> \<open>Modelled from the spec: EdgeCollection.add for an edge object with the keywords begin and end.\<close>
  "tec_add e b en c =
     (if contains (edge_uid e) (edge_map c) then if_edge_exists e b en c
      else tec_add_new e b en c)"

fun new_from_intervals ::
  "('a::linorder, edge) interval list \<Rightarrow> 'a temporal_edge_collection \<Rightarrow> error + 'a temporal_edge_collection" where
  "new_from_intervals [] new = Inr new"
| "new_from_intervals (iv # ivs) new =
     (case tec_add (iv_data iv) (iv_begin iv) (iv_end iv) new of
        Inl err \<Rightarrow> Inl err
      | Inr new' \<Rightarrow> new_from_intervals ivs new')"

text \<open>
  \<open>slice\<close>: the copy of the tree is split at \<open>begin\<close> and at \<open>end\<close>, the entries enveloped by
  the two outer ranges are removed (the outer bounds are those of the collection's own
  tree), and a new collection is built from what is left.
\<close>

definition tec_slice ::
  "'a::{linorder, zero} time \<Rightarrow> 'a time \<Rightarrow> 'a temporal_edge_collection \<Rightarrow> error + 'a temporal_edge_collection" where
  "tec_slice b e c =
     (case it_slice b (it_copy (intervals c)) of
        Inl err \<Rightarrow> Inl err
      | Inr t1 \<Rightarrow>
          (case it_slice e t1 of
             Inl err \<Rightarrow> Inl err
           | Inr t2 \<Rightarrow>
               (let t3 = it_remove_envelop (it_begin (intervals c)) b t2;
                    t4 = it_remove_envelop e (it_end (intervals c)) t3
                in new_from_intervals t4 TemporalEdgeCollection)))"

text \<open>
  \<open>begin\<close> and \<open>end\<close>. \<open>sorted\<close> orders the entries by begin, then end; the loops read only
  the bounds, so the order among entries with equal bounds does not matter.
  \<open>sorted(...)[0]\<close> and \<open>sorted(...)[-1]\<close> raise \<open>IndexError\<close> on an empty tree.
\<close>

definition sorted_intervals :: "('a::linorder, 'd) interval_tree \<Rightarrow> ('a, 'd) interval list" where
  "sorted_intervals t = sort_key (\<lambda>iv. (iv_begin iv, iv_end iv)) t"

definition sorted_by_end :: "('a::linorder, 'd) interval_tree \<Rightarrow> ('a, 'd) interval list" where
  "sorted_by_end t = sort_key iv_end t"

definition sorted_by_end_reverse :: "('a::linorder, 'd) interval_tree \<Rightarrow> ('a, 'd) interval list" where
  "sorted_by_end_reverse t = rev (sort_key iv_end (rev t))"

definition tec_begin :: "bool \<Rightarrow> 'a::{linorder, zero} temporal_edge_collection \<Rightarrow> error + 'a time" where
  "tec_begin finite' c =
     (let begin0 = it_begin (intervals c) in
      if finite' then
        (let begin1 = (case find (\<lambda>iv. NegInf < iv_begin iv) (sorted_intervals (intervals c)) of
                         None \<Rightarrow> begin0
                       | Some iv \<Rightarrow> iv_begin iv)
         in case sorted_by_end (intervals c) of
              [] \<Rightarrow> Inl IndexError
            | iv # ivs \<Rightarrow>
                (let end1 = iv_end iv;
                     begin2 = (if begin1 = NegInf \<and> end1 < PosInf then end1 else begin1)
                 in Inr (min begin2 end1)))
      else Inr (min begin0 PosInf))"

definition tec_end :: "bool \<Rightarrow> 'a::{linorder, zero} temporal_edge_collection \<Rightarrow> error + 'a time" where
  "tec_end finite' c =
     (let end0 = it_end (intervals c) in
      if finite' then
        (let end1 = (case find (\<lambda>iv. iv_end iv < PosInf) (sorted_by_end_reverse (intervals c)) of
                       None \<Rightarrow> end0
                     | Some iv \<Rightarrow> iv_end iv)
         in case rev (sorted_intervals (intervals c)) of
              [] \<Rightarrow> Inl IndexError
            | iv # ivs \<Rightarrow>
                (let begin1 = iv_begin iv;
                     end2 = (if NegInf < begin1 \<and> end1 = PosInf then begin1 else end1)
                 in Inr (max begin1 end2)))
      else Inr (max NegInf end0))"

section \<open>TemporalNetwork.add_edge\<close>












section \<open>Readings used in the statements\<close>

text \<open>
  The cached degrees of a node agree with its edge sets; the RelatedObjects record of an
  identifier, an identifier without a record reading as the empty record.
\<close>

definition degrees_at :: "node_dict \<Rightarrow> string \<Rightarrow> bool" where
  "degrees_at s n =
     (cached (indegrees s) n = length (entries (incoming s) n) \<and>
      cached (outdegrees s) n = length (entries (outgoing s) n) \<and>
      cached (degrees s) n = length (entries (adjacent_edges s) n))"

definition record_of :: "string \<Rightarrow> ('v, 'z) base_dict_scheme \<Rightarrow> related_objects" where
  "record_of n s =
     (case map_of (related s) n of
        Some (Rel r) \<Rightarrow> r
      | Some PlainDict \<Rightarrow> RelatedObjects
      | None \<Rightarrow> RelatedObjects)"

text \<open>
  An edge is unregistered when its identifier is in none of the records and edge sets of
  its endpoints that \<open>remove_edge\<close> deletes it from; its endpoints are unlinked when
  neither is among the other's related nodes, successors, predecessors or adjacent nodes.
\<close>

definition unregistered :: "edge \<Rightarrow> node_dict \<Rightarrow> bool" where
  "unregistered e s =
     (let a = node_uid (edge_v e); b = node_uid (edge_w e); k = edge_uid e
      in \<not> contains k (edges (record_of a s)) \<and> \<not> contains k (edges (record_of b s)) \<and>
         \<not> contains k (entries (outgoing s) a) \<and> \<not> contains k (entries (adjacent_edges s) a) \<and>
         \<not> contains k (entries (incoming s) b) \<and> \<not> contains k (entries (adjacent_edges s) b))"

definition unlinked :: "edge \<Rightarrow> node_dict \<Rightarrow> bool" where
  "unlinked e s =
     (let a = node_uid (edge_v e); b = node_uid (edge_w e)
      in \<not> contains b (nodes (record_of a s)) \<and> \<not> contains a (nodes (record_of b s)) \<and>
         \<not> contains b (entries (successors s) a) \<and> \<not> contains b (entries (adjacent_nodes s) a) \<and>
         \<not> contains a (entries (predecessors s) b) \<and> \<not> contains a (entries (adjacent_nodes s) b))"

text \<open>Two states read the same at a node: every accessor returns the same for it.\<close>

definition same_reading :: "node_dict \<Rightarrow> node_dict \<Rightarrow> string \<Rightarrow> bool" where
  "same_reading s t n =
     (entries (successors s) n = entries (successors t) n \<and>
      entries (predecessors s) n = entries (predecessors t) n \<and>
      entries (outgoing s) n = entries (outgoing t) n \<and>
      entries (incoming s) n = entries (incoming t) n \<and>
      entries (adjacent_nodes s) n = entries (adjacent_nodes t) n \<and>
      entries (adjacent_edges s) n = entries (adjacent_edges t) n \<and>
      cached (indegrees s) n = cached (indegrees t) n \<and>
      cached (outdegrees s) n = cached (outdegrees t) n \<and>
      cached (degrees s) n = cached (degrees t) n \<and>
      record_of n s = record_of n t)"


text \<open>
  The tree's invariant (\<open>add\<close> refuses null intervals), the bounds of a tree that are
  numbers, and an interval that has a point strictly inside.
\<close>

definition well_formed :: "('a::linorder, 'd) interval_tree \<Rightarrow> bool" where
  "well_formed t = (\<forall>iv \<in> set t. iv_begin iv < iv_end iv)"

definition finite_bounds :: "('a::linorder, 'd) interval_tree \<Rightarrow> 'a time set" where
  "finite_bounds t = {x \<in> set (boundaries t). NegInf < x \<and> x < PosInf}"

definition straddles :: "'a::linorder time \<Rightarrow> ('a, 'd) interval \<Rightarrow> bool" where
  "straddles p iv = (iv_begin iv < p \<and> p < iv_end iv)"

section \<open>Example data\<close>

definition e_ab :: edge where
  "e_ab = Edge ''e1'' (Node ''A'') (Node ''B'') True"

definition e_ba :: edge where
  "e_ba = Edge ''e2'' (Node ''B'') (Node ''A'') True"

definition e_aa :: edge where
  "e_aa = Edge ''e3'' (Node ''A'') (Node ''A'') True"

definition e_undirected :: edge where
  "e_undirected = Edge ''e4'' (Node ''A'') (Node ''B'') False"

definition e_cd :: edge where
  "e_cd = Edge ''e5'' (Node ''C'') (Node ''D'') True"

text \<open>The index after \<open>add_edge(e_ab)\<close> on an empty NodeDict.\<close>

definition index_ab :: node_dict where
  "index_ab = \<lparr>items = [(''A'', Node ''A''), (''B'', Node ''B'')],
     related = [(''A'', Rel \<lparr>nodes = [(''B'', Node ''B'')], edges = [(''e1'', e_ab)], paths = []\<rparr>),
                (''B'', Rel \<lparr>nodes = [(''A'', Node ''A'')], edges = [(''e1'', e_ab)], paths = []\<rparr>)],
     successors = [(''A'', [(''B'', Node ''B'')])],
     predecessors = [(''B'', [(''A'', Node ''A'')])],
     outgoing = [(''A'', [(''e1'', e_ab)]), (''B'', [])],
     incoming = [(''A'', []), (''B'', [(''e1'', e_ab)])],
     adjacent_nodes = [(''A'', [(''B'', Node ''B'')]), (''B'', [(''A'', Node ''A'')])],
     adjacent_edges = [(''A'', [(''e1'', e_ab)]), (''B'', [(''e1'', e_ab)])],
     indegrees = [(''A'', 0), (''B'', 1)],
     outdegrees = [(''A'', 1), (''B'', 0)],
     degrees = [(''A'', 1), (''B'', 1)]\<rparr>"


text \<open>
  The collections after adding \<open>e_ab\<close> on \<open>[-inf, 3)\<close> and \<open>e_ba\<close> on \<open>[1, 5)\<close>, and after
  adding \<open>e_ab\<close> on \<open>[0, 5)\<close>, \<open>e_ba\<close> on \<open>[3, 8)\<close> and \<open>e_cd\<close> on \<open>[10, 12)\<close>.
\<close>

definition two_intervals :: "int temporal_edge_collection" where
  "two_intervals =
     \<lparr>edge_map = [(''e1'', e_ab), (''e2'', e_ba)],
      intervals = [(Fin 1, Fin 5, e_ba), (NegInf, Fin 3, e_ab)],
      interval_map = [(e_ab, [(NegInf, Fin 3)]), (e_ba, [(Fin 1, Fin 5)])]\<rparr>"

definition three_intervals :: "int temporal_edge_collection" where
  "three_intervals =
     \<lparr>edge_map = [(''e1'', e_ab), (''e2'', e_ba), (''e5'', e_cd)],
      intervals = [(Fin 10, Fin 12, e_cd), (Fin 3, Fin 8, e_ba), (Fin 0, Fin 5, e_ab)],
      interval_map = [(e_ab, [(Fin 0, Fin 5)]), (e_ba, [(Fin 3, Fin 8)]), (e_cd, [(Fin 10, Fin 12)])]\<rparr>"

text \<open>The index after \<open>add_edge(e_ab)\<close>, \<open>add_edge(e_cd)\<close> and \<open>remove_edge(e_ab)\<close>.\<close>

definition index_cd :: node_dict where
  "index_cd = \<lparr>items = [(''A'', Node ''A''), (''B'', Node ''B''), (''C'', Node ''C''), (''D'', Node ''D'')],
     related = [(''A'', Rel \<lparr>nodes = [], edges = [], paths = []\<rparr>),
                (''B'', Rel \<lparr>nodes = [], edges = [], paths = []\<rparr>),
                (''C'', Rel \<lparr>nodes = [(''D'', Node ''D'')], edges = [(''e5'', e_cd)], paths = []\<rparr>),
                (''D'', Rel \<lparr>nodes = [(''C'', Node ''C'')], edges = [(''e5'', e_cd)], paths = []\<rparr>)],
     successors = [(''A'', []), (''C'', [(''D'', Node ''D'')])],
     predecessors = [(''B'', []), (''D'', [(''C'', Node ''C'')])],
     outgoing = [(''A'', []), (''B'', []), (''C'', [(''e5'', e_cd)]), (''D'', [])],
     incoming = [(''A'', []), (''B'', []), (''C'', []), (''D'', [(''e5'', e_cd)])],
     adjacent_nodes = [(''A'', []), (''B'', []), (''C'', [(''D'', Node ''D'')]), (''D'', [(''C'', Node ''C'')])],
     adjacent_edges = [(''A'', []), (''B'', []), (''C'', [(''e5'', e_cd)]), (''D'', [(''e5'', e_cd)])],
     indegrees = [(''A'', 0), (''B'', 0), (''C'', 0), (''D'', 1)],
     outdegrees = [(''A'', 0), (''B'', 0), (''C'', 1), (''D'', 0)],
     degrees = [(''A'', 0), (''B'', 0), (''C'', 1), (''D'', 1)]\<rparr>"

section \<open>Dictionaries and tables\<close>

lemma dd_get_touch: "dd_get (dd_touch d dflt k) dflt k' = dd_get d dflt k'"
  by (auto simp: dd_get_def dd_touch_def contains_def map_of_eq_None_iff[symmetric]
      split: option.splits if_splits)

lemma dd_get_setitem: "dd_get (setitem k v d) dflt k' = (if k' = k then v else dd_get d dflt k')"
  by (simp add: dd_get_def setitem_def update_conv')

lemma entries_attr_set:
  "entries (attr_set a n k v) m = (if m = n then setitem k v (entries a n) else entries a m)"
  by (simp add: entries_def attr_set_def dd_get_setitem dd_get_touch)

lemma entries_attr_del_Inr:
  "attr_del a n k = Inr a' \<Longrightarrow>
   entries a' m = (if m = n then AList.delete k (entries a n) else entries a m)"
  by (auto simp: entries_def attr_del_def delitem_def dd_get_setitem dd_get_touch
      split: sum.splits if_splits)

lemma entries_attr_del_Inl: "attr_del a n k = Inl a' \<Longrightarrow> entries a' m = entries a m"
  by (auto simp: entries_def attr_del_def delitem_def dd_get_touch split: sum.splits if_splits)

lemma entries_touch: "entries (dd_touch a [] k) m = entries a m"
  by (simp add: entries_def dd_get_touch)

lemma cached_setitem: "cached (setitem k v d) m = (if m = k then v else cached d m)"
  by (simp add: cached_def dd_get_setitem)

lemma contains_setitem: "contains k' (setitem k v d) = (k' = k \<or> contains k' d)"
  using dom_update[of k v d] by (auto simp: contains_def setitem_def)

lemma contains_delete: "contains k' (AList.delete k d) = (k' \<noteq> k \<and> contains k' d)"
  by (auto simp: contains_def delete_keys)

lemma dd_touch_setitem: "dd_touch (setitem k v d) dflt k = setitem k v d"
  by (simp add: dd_touch_def contains_setitem)

lemma attr_del_present:
  "contains k (entries a n) \<Longrightarrow> attr_del a n k = Inr (setitem n (AList.delete k (entries a n)) (dd_touch a [] n))"
  by (simp add: attr_del_def delitem_def entries_def)

lemma entries_setitem: "entries (setitem n d a) m = (if m = n then d else entries a m)"
  by (simp add: entries_def dd_get_setitem)

lemma setitem_twice: "setitem k v (setitem k v' d) = setitem k v d"
  by (simp add: setitem_def)

lemma map_of_setitem: "map_of (setitem k v d) k' = (if k' = k then Some v else map_of d k')"
  by (simp add: setitem_def update_conv')

lemma not_contains_map_of: "\<not> contains k d \<longleftrightarrow> map_of d k = None"
  by (simp add: contains_def map_of_eq_None_iff)

lemma map_of_touch:
  "map_of (dd_touch d dflt k) k' = (if k' = k \<and> \<not> contains k d then Some dflt else map_of d k')"
proof (cases "contains k d")
  case True
  then show ?thesis by (simp add: dd_touch_def)
next
  case False
  then have "map_of d k = None" by (simp add: not_contains_map_of)
  with False show ?thesis
    by (auto simp: dd_touch_def map_add_def split: option.splits)
qed

lemma contains_touch: "contains k' (dd_touch d x k) = (k' = k \<or> contains k' d)"
  by (auto simp: dd_touch_def contains_def)

lemma delete_setitem_fresh: "\<not> contains k d \<Longrightarrow> AList.delete k (setitem k v d) = d"
  by (simp add: setitem_def delete_update_same contains_def)

lemma record_of_setitem:
  "record_of n (s\<lparr>related := setitem k (Rel r) d\<rparr>) = (if n = k then r else record_of n (s\<lparr>related := d\<rparr>))"
  by (simp add: record_of_def map_of_setitem)

lemma seq_preserves:
  "\<forall>f \<in> set fs. \<forall>t t'. f t = Inr t' \<longrightarrow> P t \<longrightarrow> P t' \<Longrightarrow>
   seq fs s = Inr s' \<Longrightarrow> P s \<Longrightarrow> P s'"
proof (induction fs arbitrary: s)
  case Nil
  then show ?case by simp
next
  case (Cons f fs)
  from Cons.prems(2) obtain s1 where f: "f s = Inr s1" and rest: "seq fs s1 = Inr s'"
    by (auto split: sum.splits)
  have "P s1" using Cons.prems(1) f Cons.prems(3) by auto
  moreover have "\<forall>g \<in> set fs. \<forall>t t'. g t = Inr t' \<longrightarrow> P t \<longrightarrow> P t'"
    using Cons.prems(1) by simp
  ultimately show ?case using Cons.IH[of s1] rest by blast
qed

lemma update_degrees_at: "degrees_at (update_degrees n s) m = (m = n \<or> degrees_at s m)"
  by (auto simp: degrees_at_def update_degrees_def Let_def cached_setitem entries_touch entries_def[symmetric])

lemma entries_update_degrees:
  "entries (successors (update_degrees n s)) m = entries (successors s) m"
  "entries (predecessors (update_degrees n s)) m = entries (predecessors s) m"
  "entries (adjacent_nodes (update_degrees n s)) m = entries (adjacent_nodes s) m"
  "entries (outgoing (update_degrees n s)) m = entries (outgoing s) m"
  "entries (incoming (update_degrees n s)) m = entries (incoming s) m"
  "entries (adjacent_edges (update_degrees n s)) m = entries (adjacent_edges s) m"
  "related (update_degrees n s) = related s"
  "items (update_degrees n s) = items s"
  by (simp_all add: update_degrees_def Let_def entries_touch)

lemma cached_update_degrees:
  "cached (indegrees (update_degrees k s)) n = (if n = k then length (entries (incoming s) k) else cached (indegrees s) n)"
  "cached (outdegrees (update_degrees k s)) n = (if n = k then length (entries (outgoing s) k) else cached (outdegrees s) n)"
  "cached (degrees (update_degrees k s)) n = (if n = k then length (entries (adjacent_edges s) k) else cached (degrees s) n)"
  by (simp_all add: update_degrees_def Let_def cached_setitem entries_def)

section \<open>Cached degrees\<close>

lemma degrees_at_NodeDict: "degrees_at NodeDict n"
  by (simp add: degrees_at_def NodeDict_def cached_def entries_def dd_get_def)

lemma add_edge_tail_at:
  "m \<noteq> n \<Longrightarrow> degrees_at (add_edge_tail e n s) m = degrees_at s m"
  by (simp add: degrees_at_def add_edge_tail_def entries_attr_set)

lemma add_edge_head_at:
  "m \<noteq> n \<Longrightarrow> degrees_at (add_edge_head e n s) m = degrees_at s m"
  by (simp add: degrees_at_def add_edge_head_def entries_attr_set)

lemma degrees_at_related_update [simp]: "degrees_at (s\<lparr>related := r\<rparr>) m = degrees_at s m"
  by (simp add: degrees_at_def)

lemma degrees_at_items_update [simp]: "degrees_at (s\<lparr>items := r\<rparr>) m = degrees_at s m"
  by (simp add: degrees_at_def)

lemma add_edge_node_degrees:
  assumes "add_edge_node e other nd s = Inr s'" and "\<forall>m. degrees_at s m"
  shows "degrees_at s' m"
proof (cases "m = node_uid nd")
  case True
  with assms(1) show ?thesis
    by (auto simp: add_edge_node_def Let_def update_degrees_at split: related_entry.splits)
next
  case False
  with assms show ?thesis
    by (auto simp: add_edge_node_def Let_def update_degrees_at add_edge_tail_at add_edge_head_at
        split: related_entry.splits if_splits)
qed

lemma on_related_degrees:
  "on_related n f s = Inr s' \<Longrightarrow> degrees_at s' m = degrees_at s m"
  by (auto simp: on_related_def Let_def split: related_entry.splits sum.splits)

lemma del_in_degrees:
  assumes "m \<noteq> n"
  shows "del_in successors successors_update n k s = Inr s' \<Longrightarrow> degrees_at s' m = degrees_at s m"
    and "del_in predecessors predecessors_update n k s = Inr s' \<Longrightarrow> degrees_at s' m = degrees_at s m"
    and "del_in adjacent_nodes adjacent_nodes_update n k s = Inr s' \<Longrightarrow> degrees_at s' m = degrees_at s m"
    and "del_in outgoing outgoing_update n j s = Inr s' \<Longrightarrow> degrees_at s' m = degrees_at s m"
    and "del_in incoming incoming_update n j s = Inr s' \<Longrightarrow> degrees_at s' m = degrees_at s m"
    and "del_in adjacent_edges adjacent_edges_update n j s = Inr s' \<Longrightarrow> degrees_at s' m = degrees_at s m"
  using assms
  by (auto simp: del_in_def degrees_at_def entries_attr_del_Inr split: sum.splits)

lemma remove_edge_tail_degrees:
  assumes "remove_edge_tail e n s = Inr s'" and "m \<noteq> n" and "degrees_at s m"
  shows "degrees_at s' m"
proof (rule seq_preserves [where P = "\<lambda>t. degrees_at t m", OF _ assms(1)[unfolded remove_edge_tail_def] assms(3)])
  show "\<forall>f\<in>set [on_related n (\<lambda>r. rel_remove_node r (edge_w e)),
          del_in successors successors_update n (node_uid (edge_w e)),
          del_in adjacent_nodes adjacent_nodes_update n (node_uid (edge_w e)),
          del_in outgoing outgoing_update n (edge_uid e),
          del_in adjacent_edges adjacent_edges_update n (edge_uid e)].
        \<forall>t t'. f t = Inr t' \<longrightarrow> degrees_at t m \<longrightarrow> degrees_at t' m"
    using assms(2) by (simp add: on_related_degrees del_in_degrees)
qed

lemma remove_edge_head_degrees:
  assumes "remove_edge_head e n s = Inr s'" and "m \<noteq> n" and "degrees_at s m"
  shows "degrees_at s' m"
proof (rule seq_preserves [where P = "\<lambda>t. degrees_at t m", OF _ assms(1)[unfolded remove_edge_head_def] assms(3)])
  show "\<forall>f\<in>set [on_related n (\<lambda>r. rel_remove_node r (edge_v e)),
          del_in predecessors predecessors_update n (node_uid (edge_v e)),
          del_in adjacent_nodes adjacent_nodes_update n (node_uid (edge_v e)),
          del_in incoming incoming_update n (edge_uid e),
          del_in adjacent_edges adjacent_edges_update n (edge_uid e)].
        \<forall>t t'. f t = Inr t' \<longrightarrow> degrees_at t m \<longrightarrow> degrees_at t' m"
    using assms(2) by (simp add: on_related_degrees del_in_degrees)
qed

lemma remove_edge_node_degrees:
  assumes "remove_edge_node e nd s = Inr s'" and "\<forall>m. degrees_at s m"
  shows "degrees_at s' m"
proof -
  let ?n = "node_uid nd"
  from assms(1) obtain s1 s2 s3 where
    s1: "on_related ?n (\<lambda>r. rel_remove_edge r e) s = Inr s1" and
    s2: "(if nd = edge_v e then remove_edge_tail e ?n s1 else Inr s1) = Inr s2" and
    s3: "(if nd = edge_w e then remove_edge_head e ?n s2 else Inr s2) = Inr s3" and
    s': "s' = update_degrees ?n s3"
    by (auto simp: remove_edge_node_def split: sum.splits)
  show ?thesis
  proof (cases "m = ?n")
    case True
    then show ?thesis by (simp add: s' update_degrees_at)
  next
    case False
    have "degrees_at s1 m" using on_related_degrees[OF s1] assms(2) by simp
    then have "degrees_at s2 m" using s2 False
      by (auto split: if_splits dest: remove_edge_tail_degrees)
    then have "degrees_at s3 m" using s3 False
      by (auto split: if_splits dest: remove_edge_head_degrees)
    then show ?thesis by (simp add: s' update_degrees_at)
  qed
qed

lemma do_call_degrees:
  assumes "do_call c s = Inr s'" and "\<forall>m. degrees_at s m"
  shows "\<forall>m. degrees_at s' m"
proof (cases c)
  case (AddEdge e other)
  have "\<forall>f\<in>set (map (add_edge_node e other) (edge_nodes e)).
          \<forall>t t'. f t = Inr t' \<longrightarrow> (\<forall>m. degrees_at t m) \<longrightarrow> (\<forall>m. degrees_at t' m)"
    by (auto dest: add_edge_node_degrees)
  from seq_preserves [where P = "\<lambda>t. \<forall>m. degrees_at t m", OF this] assms AddEdge
  show ?thesis by (simp add: add_edge_def)
next
  case (RemoveEdge e)
  have "\<forall>f\<in>set (map (remove_edge_node e) (edge_nodes e)).
          \<forall>t t'. f t = Inr t' \<longrightarrow> (\<forall>m. degrees_at t m) \<longrightarrow> (\<forall>m. degrees_at t' m)"
    by (auto dest: remove_edge_node_degrees)
  from seq_preserves [where P = "\<lambda>t. \<forall>m. degrees_at t m", OF this] assms RemoveEdge
  show ?thesis by (simp add: remove_edge_def)
qed

lemma run_degrees:
  assumes "run cs s = Inr s'" and "\<forall>m. degrees_at s m"
  shows "\<forall>m. degrees_at s' m"
proof -
  have "\<forall>f\<in>set (map do_call cs).
          \<forall>t t'. f t = Inr t' \<longrightarrow> (\<forall>m. degrees_at t m) \<longrightarrow> (\<forall>m. degrees_at t' m)"
    by (auto dest: do_call_degrees)
  from seq_preserves [where P = "\<lambda>t. \<forall>m. degrees_at t m", OF this] assms
  show ?thesis by (simp add: run_def)
qed

lemma seq_prefix_completes: "seq fs s = Inr s' \<Longrightarrow> \<exists>t. seq (take k fs) s = Inr t"
proof (induction fs arbitrary: s k)
  case Nil
  then show ?case by simp
next
  case (Cons f fs)
  then show ?case by (cases k) (auto split: sum.splits)
qed

lemma run_prefix_completes: "run cs s = Inr s' \<Longrightarrow> \<exists>t. run (take k cs) s = Inr t"
  using seq_prefix_completes [of "map do_call cs" s s' k] by (simp add: run_def take_map)

text \<open>
  C1, as the code has it. After every run of \<open>add_edge\<close> and \<open>remove_edge\<close> calls on a
  new NodeDict in which no call raised, and for every identifier \<open>n\<close> (so for every node
  in the index), the cached indegree of \<open>n\<close> is the number of entries of its
  incoming-edge set, the cached outdegree that of its outgoing-edge set, and the cached
  degree that of its adjacent-edge set. A run whose calls all complete has only such
  prefixes (\<open>run_prefix_completes\<close>), so this holds after each of its calls.
\<close>

theorem degrees_match_edge_sets:
  "run cs NodeDict = Inr s \<Longrightarrow>
     cached (indegrees s) n = length (entries (incoming s) n) \<and>
     cached (outdegrees s) n = length (entries (outgoing s) n) \<and>
     cached (degrees s) n = length (entries (adjacent_edges s) n)"
  using run_degrees [of cs NodeDict s] degrees_at_NodeDict
  by (simp add: degrees_at_def)

theorem degrees_match_edge_sets_witness:
  "run [AddEdge e_ab None, AddEdge e_cd None, RemoveEdge e_ab] NodeDict = Inr index_cd \<and>
   cached (indegrees index_cd) ''A'' = length (entries (incoming index_cd) ''A'') \<and>
   cached (outdegrees index_cd) ''A'' = length (entries (outgoing index_cd) ''A'') \<and>
   cached (degrees index_cd) ''A'' = length (entries (adjacent_edges index_cd) ''A'') \<and>
   cached (indegrees index_cd) ''D'' = length (entries (incoming index_cd) ''D'') \<and>
   cached (outdegrees index_cd) ''D'' = length (entries (outgoing index_cd) ''D'') \<and>
   cached (degrees index_cd) ''D'' = length (entries (adjacent_edges index_cd) ''D'')"
proof -
  have h: "run [AddEdge e_ab None, AddEdge e_cd None, RemoveEdge e_ab] NodeDict = Inr index_cd"
    by code_simp
  from h degrees_match_edge_sets [OF h, of "''A''"] degrees_match_edge_sets [OF h, of "''D''"]
  show ?thesis by blast
qed

text \<open>
  The claim as stated fails for a call that completes after a call that raised. The
  calls \<open>add_edge(e_aa)\<close>, \<open>remove_edge(e_aa)\<close>, \<open>add_edge(e_cd)\<close>: the first completes,
  the second raises \<open>KeyError\<close> after it has emptied the outgoing and adjacent-edge sets
  of \<open>A\<close> and before it recomputes the degrees, and the third, made by a caller that
  caught the exception, completes. After it \<open>A\<close> is in the index with cached outdegree
  and degree \<open>1\<close> and no outgoing and no adjacent edge.
\<close>

theorem degrees_stale_after_failed_call:
  "completed (do_call (AddEdge e_aa None) NodeDict) \<and>
   \<not> completed (do_call (RemoveEdge e_aa) (run_catching [AddEdge e_aa None] NodeDict)) \<and>
   completed (do_call (AddEdge e_cd None) (run_catching [AddEdge e_aa None, RemoveEdge e_aa] NodeDict)) \<and>
   contains ''A'' (items (run_catching [AddEdge e_aa None, RemoveEdge e_aa, AddEdge e_cd None] NodeDict)) \<and>
   cached (outdegrees (run_catching [AddEdge e_aa None, RemoveEdge e_aa, AddEdge e_cd None] NodeDict)) ''A'' = 1 \<and>
   length (entries (outgoing (run_catching [AddEdge e_aa None, RemoveEdge e_aa, AddEdge e_cd None] NodeDict)) ''A'') = 0 \<and>
   cached (degrees (run_catching [AddEdge e_aa None, RemoveEdge e_aa, AddEdge e_cd None] NodeDict)) ''A'' = 1 \<and>
   length (entries (adjacent_edges (run_catching [AddEdge e_aa None, RemoveEdge e_aa, AddEdge e_cd None] NodeDict)) ''A'') = 0"
  by code_simp

section \<open>Removing a self-loop\<close>

lemma self_loop_registered_fails:
  assumes loop: "edge_v e = Node a" "edge_w e = Node a"
    and rel: "dd_get (related s1) PlainDict a = Rel r"
    and r: "contains (edge_uid e) (edges r)" "contains a (nodes r)"
    and tail: "contains a (entries (successors s1) a)" "contains (edge_uid e) (entries (outgoing s1) a)"
    and adj: "contains a (entries (adjacent_nodes s1) a)" "contains (edge_uid e) (entries (adjacent_edges s1) a)"
  shows "remove_edge e s1 = Inl (KeyError,
     s1\<lparr>related := setitem a (Rel (r\<lparr>edges := AList.delete (edge_uid e) (edges r),
                                         nodes := AList.delete a (nodes r)\<rparr>)) (dd_touch (related s1) PlainDict a),
        successors := setitem a (AList.delete a (entries (successors s1) a)) (dd_touch (successors s1) [] a),
        adjacent_nodes := setitem a (AList.delete a (entries (adjacent_nodes s1) a)) (dd_touch (adjacent_nodes s1) [] a),
        outgoing := setitem a (AList.delete (edge_uid e) (entries (outgoing s1) a)) (dd_touch (outgoing s1) [] a),
        adjacent_edges := setitem a (AList.delete (edge_uid e) (entries (adjacent_edges s1) a)) (dd_touch (adjacent_edges s1) [] a)\<rparr>)"
  using assms
  by (simp add: remove_edge_def edge_nodes_def remove_edge_node_def remove_edge_tail_def
      remove_edge_head_def on_related_def Let_def dd_get_setitem dd_get_touch
      rel_remove_edge_def rel_remove_node_def delitem_def contains_setitem contains_delete
      del_in_def attr_del_present dd_touch_setitem setitem_twice)

lemma self_loop_add_registers:
  assumes loop: "edge_v e = Node a" "edge_w e = Node a"
    and add: "add_edge e other s = Inr s1"
  shows "\<exists>r. dd_get (related s1) PlainDict a = Rel r \<and>
           contains (edge_uid e) (edges r) \<and> contains a (nodes r)"
    and "contains a (entries (successors s1) a)"
    and "contains (edge_uid e) (entries (outgoing s1) a)"
    and "contains a (entries (adjacent_nodes s1) a)"
    and "contains (edge_uid e) (entries (adjacent_edges s1) a)"
    and "contains a (entries (predecessors s1) a)"
    and "contains (edge_uid e) (entries (incoming s1) a)"
  using assms
  by (auto simp: add_edge_def edge_nodes_def add_edge_node_def Let_def entries_update_degrees
      add_edge_tail_def add_edge_head_def entries_attr_set contains_setitem dd_get_setitem
      rel_add_edge_def rel_add_node_def
      split: related_entry.splits if_splits)

text \<open>
  C10. For a self-loop \<open>e\<close> on the node \<open>a\<close> registered by \<open>add_edge\<close>, \<open>remove_edge(e)\<close>
  does not complete: it raises \<open>KeyError\<close> (the second \<open>remove_node\<close> finds the relation
  already deleted). In the state it leaves, \<open>a\<close>'s successor, outgoing, adjacent-node and
  adjacent-edge sets no longer hold the loop, its predecessor and incoming sets still do,
  and the predecessor, incoming and degree tables are as before the call: the index is
  partially retracted, not unchanged.
\<close>

theorem self_loop_remove_edge_raises:
  assumes loop: "edge_v e = Node a" "edge_w e = Node a"
    and add: "add_edge e other s = Inr s1"
  shows "\<exists>s2. remove_edge e s1 = Inl (KeyError, s2) \<and>
     \<not> contains a (entries (successors s2) a) \<and>
     \<not> contains (edge_uid e) (entries (outgoing s2) a) \<and>
     \<not> contains a (entries (adjacent_nodes s2) a) \<and>
     \<not> contains (edge_uid e) (entries (adjacent_edges s2) a) \<and>
     contains a (entries (predecessors s2) a) \<and>
     contains (edge_uid e) (entries (incoming s2) a) \<and>
     predecessors s2 = predecessors s1 \<and> incoming s2 = incoming s1 \<and>
     indegrees s2 = indegrees s1 \<and> outdegrees s2 = outdegrees s1 \<and>
     degrees s2 = degrees s1 \<and> s2 \<noteq> s1"
proof -
  note reg = self_loop_add_registers [OF assms]
  from reg(1) obtain r where r: "dd_get (related s1) PlainDict a = Rel r"
    "contains (edge_uid e) (edges r)" "contains a (nodes r)" by blast
  let ?s2 = "s1\<lparr>related := setitem a (Rel (r\<lparr>edges := AList.delete (edge_uid e) (edges r),
                                         nodes := AList.delete a (nodes r)\<rparr>)) (dd_touch (related s1) PlainDict a),
        successors := setitem a (AList.delete a (entries (successors s1) a)) (dd_touch (successors s1) [] a),
        adjacent_nodes := setitem a (AList.delete a (entries (adjacent_nodes s1) a)) (dd_touch (adjacent_nodes s1) [] a),
        outgoing := setitem a (AList.delete (edge_uid e) (entries (outgoing s1) a)) (dd_touch (outgoing s1) [] a),
        adjacent_edges := setitem a (AList.delete (edge_uid e) (entries (adjacent_edges s1) a)) (dd_touch (adjacent_edges s1) [] a)\<rparr>"
  have fails: "remove_edge e s1 = Inl (KeyError, ?s2)"
    by (rule self_loop_registered_fails [OF loop r reg(2,3,4,5)])
  have gone: "\<not> contains a (entries (successors ?s2) a)"
    by (simp add: entries_setitem contains_delete)
  have "?s2 \<noteq> s1"
  proof
    assume "?s2 = s1"
    then have "successors ?s2 = successors s1" by (rule arg_cong)
    with gone reg(2) show False by metis
  qed
  then show ?thesis using fails reg(6,7)
    by (intro exI [of _ ?s2]) (simp add: entries_setitem contains_delete)
qed

theorem self_loop_remove_edge_raises_witness:
  "edge_v e_aa = Node ''A'' \<and> edge_w e_aa = Node ''A'' \<and>
   add_edge e_aa None NodeDict = Inr
     \<lparr>items = [(''A'', Node ''A'')],
      related = [(''A'', Rel \<lparr>nodes = [(''A'', Node ''A'')], edges = [(''e3'', e_aa)], paths = []\<rparr>)],
      successors = [(''A'', [(''A'', Node ''A'')])],
      predecessors = [(''A'', [(''A'', Node ''A'')])],
      outgoing = [(''A'', [(''e3'', e_aa)])],
      incoming = [(''A'', [(''e3'', e_aa)])],
      adjacent_nodes = [(''A'', [(''A'', Node ''A'')])],
      adjacent_edges = [(''A'', [(''e3'', e_aa)])],
      indegrees = [(''A'', 1)], outdegrees = [(''A'', 1)], degrees = [(''A'', 1)]\<rparr> \<and>
   (\<exists>s2. remove_edge e_aa
       \<lparr>items = [(''A'', Node ''A'')],
        related = [(''A'', Rel \<lparr>nodes = [(''A'', Node ''A'')], edges = [(''e3'', e_aa)], paths = []\<rparr>)],
        successors = [(''A'', [(''A'', Node ''A'')])],
        predecessors = [(''A'', [(''A'', Node ''A'')])],
        outgoing = [(''A'', [(''e3'', e_aa)])],
        incoming = [(''A'', [(''e3'', e_aa)])],
        adjacent_nodes = [(''A'', [(''A'', Node ''A'')])],
        adjacent_edges = [(''A'', [(''e3'', e_aa)])],
        indegrees = [(''A'', 1)], outdegrees = [(''A'', 1)], degrees = [(''A'', 1)]\<rparr>
      = Inl (KeyError, s2) \<and>
      \<not> contains ''A'' (entries (successors s2) ''A'') \<and>
      contains ''A'' (entries (predecessors s2) ''A'') \<and>
      degrees s2 = [(''A'', 1)])"
proof -
  have ends: "edge_v e_aa = Node ''A''" "edge_w e_aa = Node ''A''"
    by (simp_all add: e_aa_def)
  have add: "add_edge e_aa None NodeDict = Inr
     \<lparr>items = [(''A'', Node ''A'')],
      related = [(''A'', Rel \<lparr>nodes = [(''A'', Node ''A'')], edges = [(''e3'', e_aa)], paths = []\<rparr>)],
      successors = [(''A'', [(''A'', Node ''A'')])],
      predecessors = [(''A'', [(''A'', Node ''A'')])],
      outgoing = [(''A'', [(''e3'', e_aa)])],
      incoming = [(''A'', [(''e3'', e_aa)])],
      adjacent_nodes = [(''A'', [(''A'', Node ''A'')])],
      adjacent_edges = [(''A'', [(''e3'', e_aa)])],
      indegrees = [(''A'', 1)], outdegrees = [(''A'', 1)], degrees = [(''A'', 1)]\<rparr>"
    by code_simp
  from self_loop_remove_edge_raises [OF ends add] obtain s2 where
    "remove_edge e_aa
       \<lparr>items = [(''A'', Node ''A'')],
        related = [(''A'', Rel \<lparr>nodes = [(''A'', Node ''A'')], edges = [(''e3'', e_aa)], paths = []\<rparr>)],
        successors = [(''A'', [(''A'', Node ''A'')])],
        predecessors = [(''A'', [(''A'', Node ''A'')])],
        outgoing = [(''A'', [(''e3'', e_aa)])],
        incoming = [(''A'', [(''e3'', e_aa)])],
        adjacent_nodes = [(''A'', [(''A'', Node ''A'')])],
        adjacent_edges = [(''A'', [(''e3'', e_aa)])],
        indegrees = [(''A'', 1)], outdegrees = [(''A'', 1)], degrees = [(''A'', 1)]\<rparr>
      = Inl (KeyError, s2)"
    "\<not> contains ''A'' (entries (successors s2) ''A'')"
    "contains ''A'' (entries (predecessors s2) ''A'')"
    "degrees s2 = [(''A'', 1)]"
    by auto
  with ends add show ?thesis by blast
qed

section \<open>Adding and removing an edge\<close>

lemma add_edge_node_None:
  assumes "map_of (related s) (node_uid nd) \<noteq> Some PlainDict"
  shows "add_edge_node e None nd s =
     Inr (let n = node_uid nd;
              r2 = rel_add_edge (record_of n s) e;
              r3 = (if nd = edge_v e then rel_add_node r2 (edge_w e) else r2);
              s3 = (if nd = edge_v e then add_edge_tail e n s else s);
              r4 = (if nd = edge_w e then rel_add_node r3 (edge_v e) else r3);
              s4 = (if nd = edge_w e then add_edge_head e n s3 else s3);
              s5 = update_degrees n (s4\<lparr>related := setitem n (Rel r4) (related s)\<rparr>)
          in s5\<lparr>items := setitem n nd (items s5)\<rparr>)"
proof (cases "map_of (related s) (node_uid nd)")
  case None
  then show ?thesis
    by (cases "nd = edge_v e"; cases "nd = edge_w e")
      (simp_all add: add_edge_node_def Let_def not_contains_map_of dd_get_def map_of_setitem
        record_of_def setitem_twice add_edge_tail_def add_edge_head_def)
next
  case (Some x)
  with assms obtain r where "x = Rel r" by (cases x) auto
  with Some show ?thesis
    by (cases "nd = edge_v e"; cases "nd = edge_w e")
      (simp_all add: add_edge_node_def Let_def not_contains_map_of dd_get_def map_of_setitem
        record_of_def setitem_twice add_edge_tail_def add_edge_head_def)
qed

lemma remove_edge_node_tail:
  assumes ends: "edge_v e = Node a" "edge_w e = Node b" "a \<noteq> b"
    and rel: "dd_get (related t) PlainDict a = Rel r"
    and r: "contains (edge_uid e) (edges r)" "contains b (nodes r)"
    and tabs: "contains b (entries (successors t) a)" "contains b (entries (adjacent_nodes t) a)"
      "contains (edge_uid e) (entries (outgoing t) a)" "contains (edge_uid e) (entries (adjacent_edges t) a)"
  shows "remove_edge_node e (Node a) t = Inr (update_degrees a
     (t\<lparr>related := setitem a (Rel (r\<lparr>edges := AList.delete (edge_uid e) (edges r),
                                        nodes := AList.delete b (nodes r)\<rparr>)) (dd_touch (related t) PlainDict a),
        successors := setitem a (AList.delete b (entries (successors t) a)) (dd_touch (successors t) [] a),
        adjacent_nodes := setitem a (AList.delete b (entries (adjacent_nodes t) a)) (dd_touch (adjacent_nodes t) [] a),
        outgoing := setitem a (AList.delete (edge_uid e) (entries (outgoing t) a)) (dd_touch (outgoing t) [] a),
        adjacent_edges := setitem a (AList.delete (edge_uid e) (entries (adjacent_edges t) a)) (dd_touch (adjacent_edges t) [] a)\<rparr>))"
  using assms
  by (simp add: remove_edge_node_def remove_edge_tail_def
      on_related_def Let_def dd_get_setitem dd_get_touch
      rel_remove_edge_def rel_remove_node_def delitem_def contains_setitem contains_delete
      del_in_def attr_del_present dd_touch_setitem setitem_twice)

lemma remove_edge_node_head:
  assumes ends: "edge_v e = Node a" "edge_w e = Node b" "a \<noteq> b"
    and rel: "dd_get (related t) PlainDict b = Rel r"
    and r: "contains (edge_uid e) (edges r)" "contains a (nodes r)"
    and tabs: "contains a (entries (predecessors t) b)" "contains a (entries (adjacent_nodes t) b)"
      "contains (edge_uid e) (entries (incoming t) b)" "contains (edge_uid e) (entries (adjacent_edges t) b)"
  shows "remove_edge_node e (Node b) t = Inr (update_degrees b
     (t\<lparr>related := setitem b (Rel (r\<lparr>edges := AList.delete (edge_uid e) (edges r),
                                        nodes := AList.delete a (nodes r)\<rparr>)) (dd_touch (related t) PlainDict b),
        predecessors := setitem b (AList.delete a (entries (predecessors t) b)) (dd_touch (predecessors t) [] b),
        adjacent_nodes := setitem b (AList.delete a (entries (adjacent_nodes t) b)) (dd_touch (adjacent_nodes t) [] b),
        incoming := setitem b (AList.delete (edge_uid e) (entries (incoming t) b)) (dd_touch (incoming t) [] b),
        adjacent_edges := setitem b (AList.delete (edge_uid e) (entries (adjacent_edges t) b)) (dd_touch (adjacent_edges t) [] b)\<rparr>))"
  using assms
  by (simp add: remove_edge_node_def remove_edge_head_def
      on_related_def Let_def dd_get_setitem dd_get_touch
      rel_remove_edge_def rel_remove_node_def delitem_def contains_setitem contains_delete
      del_in_def attr_del_present dd_touch_setitem setitem_twice)

lemma add_edge_node_tail:
  assumes ends: "edge_v e = Node a" "edge_w e = Node b" "a \<noteq> b"
    and plain: "map_of (related s) a \<noteq> Some PlainDict"
  shows "add_edge_node e None (Node a) s = Inr (update_degrees a
     (s\<lparr>successors := attr_set (successors s) a b (Node b),
        adjacent_nodes := attr_set (adjacent_nodes s) a b (Node b),
        outgoing := attr_set (outgoing s) a (edge_uid e) e,
        adjacent_edges := attr_set (adjacent_edges s) a (edge_uid e) e,
        related := setitem a (Rel (rel_add_node (rel_add_edge (record_of a s) e) (Node b))) (related s)\<rparr>)
     \<lparr>items := setitem a (Node a) (items s)\<rparr>)"
  using assms
  by (simp add: add_edge_node_None Let_def add_edge_tail_def entries_update_degrees)

lemma add_edge_node_head:
  assumes ends: "edge_v e = Node a" "edge_w e = Node b" "a \<noteq> b"
    and plain: "map_of (related s) b \<noteq> Some PlainDict"
  shows "add_edge_node e None (Node b) s = Inr (update_degrees b
     (s\<lparr>predecessors := attr_set (predecessors s) b a (Node a),
        adjacent_nodes := attr_set (adjacent_nodes s) b a (Node a),
        incoming := attr_set (incoming s) b (edge_uid e) e,
        adjacent_edges := attr_set (adjacent_edges s) b (edge_uid e) e,
        related := setitem b (Rel (rel_add_node (rel_add_edge (record_of b s) e) (Node a))) (related s)\<rparr>)
     \<lparr>items := setitem b (Node b) (items s)\<rparr>)"
  using assms
  by (simp add: add_edge_node_None Let_def add_edge_head_def entries_update_degrees)

text \<open>
  C2, as the code has it. Let \<open>e\<close> be an edge with distinct endpoints \<open>a\<close> and \<open>b\<close> that is
  unregistered and whose endpoints are unlinked, in a state where the related entries of
  \<open>a\<close> and \<open>b\<close> are records or absent and their cached degrees agree with their edge
  sets. Then \<open>add_edge(e)\<close> followed by \<open>remove_edge(e)\<close> completes, and every accessor
  reads the same as before for every node: the six set tables, the three degrees and the
  related record, a missing entry reading as the empty set, \<open>0\<close> and the empty record.
  The tables themselves are not restored: both endpoints are left with a record and stay
  in the index.
\<close>

theorem add_then_remove_restores_readings:
  assumes ends: "edge_v e = Node a" "edge_w e = Node b" "a \<noteq> b"
    and plain: "map_of (related s) a \<noteq> Some PlainDict" "map_of (related s) b \<noteq> Some PlainDict"
    and unreg: "unregistered e s" and unl: "unlinked e s"
    and deg: "degrees_at s a" "degrees_at s b"
  shows "\<exists>s'. seq [add_edge e None, remove_edge e] s = Inr s' \<and>
           (\<forall>n. same_reading s' s n) \<and>
           map_of (related s') a = Some (Rel (record_of a s)) \<and>
           map_of (related s') b = Some (Rel (record_of b s)) \<and>
           items s' = setitem b (Node b) (setitem a (Node a) (items s))"
proof -
  let ?k = "edge_uid e"
  define s1 where "s1 = update_degrees a
     (s\<lparr>successors := attr_set (successors s) a b (Node b),
        adjacent_nodes := attr_set (adjacent_nodes s) a b (Node b),
        outgoing := attr_set (outgoing s) a ?k e,
        adjacent_edges := attr_set (adjacent_edges s) a ?k e,
        related := setitem a (Rel (rel_add_node (rel_add_edge (record_of a s) e) (Node b))) (related s)\<rparr>)
     \<lparr>items := setitem a (Node a) (items s)\<rparr>"
  have A: "add_edge_node e None (Node a) s = Inr s1"
    unfolding s1_def by (rule add_edge_node_tail [OF ends plain(1)])
  have plain1: "map_of (related s1) b \<noteq> Some PlainDict"
    using plain(2) ends(3) by (simp add: s1_def entries_update_degrees map_of_setitem)
  define s2 where "s2 = update_degrees b
     (s1\<lparr>predecessors := attr_set (predecessors s1) b a (Node a),
        adjacent_nodes := attr_set (adjacent_nodes s1) b a (Node a),
        incoming := attr_set (incoming s1) b ?k e,
        adjacent_edges := attr_set (adjacent_edges s1) b ?k e,
        related := setitem b (Rel (rel_add_node (rel_add_edge (record_of b s1) e) (Node a))) (related s1)\<rparr>)
     \<lparr>items := setitem b (Node b) (items s1)\<rparr>"
  have B: "add_edge_node e None (Node b) s1 = Inr s2"
    unfolding s2_def by (rule add_edge_node_head [OF ends plain1])
  have add: "add_edge e None s = Inr s2"
    using A B ends by (simp add: add_edge_def edge_nodes_def)
  define ra where "ra = rel_add_node (rel_add_edge (record_of a s) e) (Node b)"
  have rel_a: "dd_get (related s2) PlainDict a = Rel ra"
    using ends(3) by (simp add: s2_def s1_def ra_def entries_update_degrees dd_get_setitem)
  have ra: "contains ?k (edges ra)" "contains b (nodes ra)"
    by (simp_all add: ra_def rel_add_node_def rel_add_edge_def contains_setitem)
  have tabs_a: "contains b (entries (successors s2) a)" "contains b (entries (adjacent_nodes s2) a)"
      "contains ?k (entries (outgoing s2) a)" "contains ?k (entries (adjacent_edges s2) a)"
    using ends(3)
    by (simp_all add: s2_def s1_def entries_update_degrees entries_attr_set contains_setitem)
  define s3 where "s3 = update_degrees a
     (s2\<lparr>related := setitem a (Rel (ra\<lparr>edges := AList.delete ?k (edges ra),
                                        nodes := AList.delete b (nodes ra)\<rparr>)) (dd_touch (related s2) PlainDict a),
        successors := setitem a (AList.delete b (entries (successors s2) a)) (dd_touch (successors s2) [] a),
        adjacent_nodes := setitem a (AList.delete b (entries (adjacent_nodes s2) a)) (dd_touch (adjacent_nodes s2) [] a),
        outgoing := setitem a (AList.delete ?k (entries (outgoing s2) a)) (dd_touch (outgoing s2) [] a),
        adjacent_edges := setitem a (AList.delete ?k (entries (adjacent_edges s2) a)) (dd_touch (adjacent_edges s2) [] a)\<rparr>)"
  have RA: "remove_edge_node e (Node a) s2 = Inr s3"
    unfolding s3_def by (rule remove_edge_node_tail [OF ends rel_a ra tabs_a])
  define rb where "rb = rel_add_node (rel_add_edge (record_of b s) e) (Node a)"
  have rel_b: "dd_get (related s3) PlainDict b = Rel rb"
    using ends(3)
    by (simp add: s3_def s2_def s1_def rb_def entries_update_degrees dd_get_setitem dd_get_touch
        record_of_def map_of_setitem)
  have rb: "contains ?k (edges rb)" "contains a (nodes rb)"
    by (simp_all add: rb_def rel_add_node_def rel_add_edge_def contains_setitem)
  have tabs_b: "contains a (entries (predecessors s3) b)" "contains a (entries (adjacent_nodes s3) b)"
      "contains ?k (entries (incoming s3) b)" "contains ?k (entries (adjacent_edges s3) b)"
    using ends(3)
    by (simp_all add: s3_def s2_def entries_update_degrees entries_attr_set entries_setitem
        entries_touch contains_setitem)
  define s4 where "s4 = update_degrees b
     (s3\<lparr>related := setitem b (Rel (rb\<lparr>edges := AList.delete ?k (edges rb),
                                        nodes := AList.delete a (nodes rb)\<rparr>)) (dd_touch (related s3) PlainDict b),
        predecessors := setitem b (AList.delete a (entries (predecessors s3) b)) (dd_touch (predecessors s3) [] b),
        adjacent_nodes := setitem b (AList.delete a (entries (adjacent_nodes s3) b)) (dd_touch (adjacent_nodes s3) [] b),
        incoming := setitem b (AList.delete ?k (entries (incoming s3) b)) (dd_touch (incoming s3) [] b),
        adjacent_edges := setitem b (AList.delete ?k (entries (adjacent_edges s3) b)) (dd_touch (adjacent_edges s3) [] b)\<rparr>)"
  have RB: "remove_edge_node e (Node b) s3 = Inr s4"
    unfolding s4_def by (rule remove_edge_node_head [OF ends rel_b rb tabs_b])
  have rem: "remove_edge e s2 = Inr s4"
    using RA RB ends by (simp add: remove_edge_def edge_nodes_def)
  have run: "seq [add_edge e None, remove_edge e] s = Inr s4"
    using add rem by simp
  note unfold = s4_def s3_def s2_def s1_def ra_def rb_def
  note obs = entries_update_degrees entries_setitem entries_touch entries_attr_set
    delete_setitem_fresh cached_update_degrees
  from unreg unl have fresh:
    "\<not> contains ?k (edges (record_of a s))" "\<not> contains ?k (edges (record_of b s))"
    "\<not> contains ?k (entries (outgoing s) a)" "\<not> contains ?k (entries (adjacent_edges s) a)"
    "\<not> contains ?k (entries (incoming s) b)" "\<not> contains ?k (entries (adjacent_edges s) b)"
    "\<not> contains b (nodes (record_of a s))" "\<not> contains a (nodes (record_of b s))"
    "\<not> contains b (entries (successors s) a)" "\<not> contains b (entries (adjacent_nodes s) a)"
    "\<not> contains a (entries (predecessors s) b)" "\<not> contains a (entries (adjacent_nodes s) b)"
    by (simp_all add: unregistered_def unlinked_def Let_def ends)
  have 1: "entries (successors s4) n = entries (successors s) n" for n
    using ends(3) fresh by (simp add: unfold obs)
  have 2: "entries (predecessors s4) n = entries (predecessors s) n" for n
    using ends(3) fresh by (simp add: unfold obs)
  have 3: "entries (outgoing s4) n = entries (outgoing s) n" for n
    using ends(3) fresh by (simp add: unfold obs)
  have 4: "entries (incoming s4) n = entries (incoming s) n" for n
    using ends(3) fresh by (simp add: unfold obs)
  have 5: "entries (adjacent_nodes s4) n = entries (adjacent_nodes s) n" for n
    using ends(3) fresh by (simp add: unfold obs)
  have 6: "entries (adjacent_edges s4) n = entries (adjacent_edges s) n" for n
    using ends(3) fresh by (simp add: unfold obs)
  have 7: "cached (indegrees s4) n = cached (indegrees s) n" for n
    using ends(3) fresh deg by (simp add: unfold obs degrees_at_def)
  have 8: "cached (outdegrees s4) n = cached (outdegrees s) n" for n
    using ends(3) fresh deg by (simp add: unfold obs degrees_at_def)
  have 9: "cached (degrees s4) n = cached (degrees s) n" for n
    using ends(3) fresh deg by (simp add: unfold obs degrees_at_def)
  have rel4: "map_of (related s4) n =
      (if n = a then Some (Rel (record_of a s))
       else if n = b then Some (Rel (record_of b s)) else map_of (related s) n)" for n
    using ends(3) fresh
    by (simp add: unfold obs map_of_setitem map_of_touch contains_touch contains_setitem
        rel_add_node_def rel_add_edge_def record_of_setitem)
  then have 10: "record_of n s4 = record_of n s" for n
    by (simp add: record_of_def)
  have items4: "items s4 = setitem b (Node b) (setitem a (Node a) (items s))"
    by (simp add: unfold obs)
  have "\<forall>n. same_reading s4 s n"
    using 1 2 3 4 5 6 7 8 9 10 by (simp add: same_reading_def)
  then show ?thesis
    using run rel4 [of a] rel4 [of b] ends(3) items4 by simp
qed

theorem add_then_remove_restores_readings_witness:
  "map_of (related NodeDict) ''A'' \<noteq> Some PlainDict \<and>
   map_of (related NodeDict) ''B'' \<noteq> Some PlainDict \<and>
   unregistered e_ab NodeDict \<and> unlinked e_ab NodeDict \<and>
   degrees_at NodeDict ''A'' \<and> degrees_at NodeDict ''B'' \<and>
   (\<exists>s'. seq [add_edge e_ab None, remove_edge e_ab] NodeDict = Inr s' \<and>
         (\<forall>n. same_reading s' NodeDict n) \<and>
         map_of (related s') ''A'' = Some (Rel (record_of ''A'' NodeDict)) \<and>
         map_of (related s') ''B'' = Some (Rel (record_of ''B'' NodeDict)) \<and>
         items s' = setitem ''B'' (Node ''B'') (setitem ''A'' (Node ''A'') (items NodeDict)))"
proof -
  have ends: "edge_v e_ab = Node ''A''" "edge_w e_ab = Node ''B''" "''A'' \<noteq> ''B''"
    by (simp_all add: e_ab_def)
  have plain: "map_of (related NodeDict) ''A'' \<noteq> Some PlainDict"
    "map_of (related NodeDict) ''B'' \<noteq> Some PlainDict"
    by (simp_all add: NodeDict_def)
  have unreg: "unregistered e_ab NodeDict"
    by (simp add: unregistered_def Let_def NodeDict_def record_of_def RelatedObjects_def
        entries_def dd_get_def contains_def)
  have unl: "unlinked e_ab NodeDict"
    by (simp add: unlinked_def Let_def NodeDict_def record_of_def RelatedObjects_def
        entries_def dd_get_def contains_def)
  have deg: "degrees_at NodeDict ''A''" "degrees_at NodeDict ''B''"
    by (rule degrees_at_NodeDict)+
  from add_then_remove_restores_readings [OF ends plain unreg unl deg] plain unreg unl deg
  show ?thesis by blast
qed

text \<open>
  The claim as stated fails twice. On the empty index the tables and records are not
  restored exactly: the successor table keeps an empty entry for \<open>A\<close>, and \<open>A\<close> keeps a
  related record. On the index that holds the edge \<open>e_ba\<close> from \<open>B\<close> to \<open>A\<close>, adding and
  removing \<open>e_ab\<close> removes \<open>B\<close> from \<open>A\<close>'s adjacent nodes although \<open>e_ba\<close> is still
  there.
\<close>

theorem add_then_remove_not_identity:
  "map_sum fst successors (seq [add_edge e_ab None, remove_edge e_ab] NodeDict) = Inr [(''A'', [])] \<and>
   successors NodeDict = [] \<and>
   map_sum fst related (seq [add_edge e_ab None, remove_edge e_ab] NodeDict)
     = Inr [(''A'', Rel RelatedObjects), (''B'', Rel RelatedObjects)] \<and>
   related NodeDict = [] \<and>
   map_sum fst (\<lambda>s. entries (adjacent_nodes s) ''A'') (add_edge e_ba None NodeDict)
     = Inr [(''B'', Node ''B'')] \<and>
   map_sum fst (\<lambda>s. entries (adjacent_nodes s) ''A'')
     (seq [add_edge e_ba None, add_edge e_ab None, remove_edge e_ab] NodeDict) = Inr []"
proof -
  have "seq [add_edge e_ab None, remove_edge e_ab] NodeDict =
    Inr \<lparr>items = [(''A'', Node ''A''), (''B'', Node ''B'')],
         related = [(''A'', Rel RelatedObjects), (''B'', Rel RelatedObjects)],
         successors = [(''A'', [])], predecessors = [(''B'', [])],
         outgoing = [(''A'', []), (''B'', [])], incoming = [(''A'', []), (''B'', [])],
         adjacent_nodes = [(''A'', []), (''B'', [])], adjacent_edges = [(''A'', []), (''B'', [])],
         indegrees = [(''A'', 0), (''B'', 0)], outdegrees = [(''A'', 0), (''B'', 0)],
         degrees = [(''A'', 0), (''B'', 0)]\<rparr>"
    by code_simp
  moreover have "map_sum fst (\<lambda>s. entries (adjacent_nodes s) ''A'') (add_edge e_ba None NodeDict)
     = Inr [(''B'', Node ''B'')]"
    by code_simp
  moreover have "map_sum fst (\<lambda>s. entries (adjacent_nodes s) ''A'')
     (seq [add_edge e_ba None, add_edge e_ab None, remove_edge e_ab] NodeDict) = Inr []"
    by code_simp
  ultimately show ?thesis by (simp add: NodeDict_def)
qed

section \<open>Deleting a node\<close>

lemma entries_discard: "entries (discard n d) m = (if m = n then [] else entries d m)"
  by (auto simp: entries_def discard_def dd_get_def not_contains_map_of delete_conv'
      split: option.splits)

lemma contains_discard: "contains m (discard n d) = (m \<noteq> n \<and> contains m d)"
  by (auto simp: discard_def contains_delete)

text \<open>
  C6, as the code has it. For a node \<open>n\<close> that is in the index and has a related entry,
  \<open>delete(n)\<close> completes and removes \<open>n\<close>'s own entries only: afterwards \<open>n\<close> is a key of
  none of the nine tables, of the related map or of the index, and the adjacent-node,
  successor and predecessor sets of every other node are exactly as before. So another
  node's set holds \<open>n\<close> after the deletion if and only if it did before: no reference
  survives when the caller has removed the incident edges first.
\<close>

theorem delete_removes_own_entries_only:
  assumes "contains n (related s)" and "contains n (items s)"
  shows "\<exists>s'. nd_delete n s = Inr s' \<and>
     \<not> contains n (items s') \<and> \<not> contains n (related s') \<and>
     \<not> contains n (successors s') \<and> \<not> contains n (predecessors s') \<and>
     \<not> contains n (outgoing s') \<and> \<not> contains n (incoming s') \<and>
     \<not> contains n (adjacent_nodes s') \<and> \<not> contains n (adjacent_edges s') \<and>
     \<not> contains n (indegrees s') \<and> \<not> contains n (outdegrees s') \<and>
     \<not> contains n (degrees s') \<and>
     (\<forall>m. m \<noteq> n \<longrightarrow>
        entries (adjacent_nodes s') m = entries (adjacent_nodes s) m \<and>
        entries (successors s') m = entries (successors s) m \<and>
        entries (predecessors s') m = entries (predecessors s) m)"
  using assms
  by (simp add: nd_delete_def bd_delete_def delitem_def delete_properties_def
      contains_discard contains_delete entries_discard)

theorem delete_removes_own_entries_only_witness:
  "contains ''B'' (related index_ab) \<and> contains ''B'' (items index_ab) \<and>
   (\<exists>s'. nd_delete ''B'' index_ab = Inr s' \<and>
     \<not> contains ''B'' (items s') \<and> \<not> contains ''B'' (related s') \<and>
     \<not> contains ''B'' (successors s') \<and> \<not> contains ''B'' (predecessors s') \<and>
     \<not> contains ''B'' (outgoing s') \<and> \<not> contains ''B'' (incoming s') \<and>
     \<not> contains ''B'' (adjacent_nodes s') \<and> \<not> contains ''B'' (adjacent_edges s') \<and>
     \<not> contains ''B'' (indegrees s') \<and> \<not> contains ''B'' (outdegrees s') \<and>
     \<not> contains ''B'' (degrees s') \<and>
     entries (adjacent_nodes s') ''A'' = entries (adjacent_nodes index_ab) ''A'' \<and>
     entries (successors s') ''A'' = entries (successors index_ab) ''A'' \<and>
     entries (predecessors s') ''A'' = entries (predecessors index_ab) ''A'')"
proof -
  have h: "contains ''B'' (related index_ab)" "contains ''B'' (items index_ab)"
    by (simp_all add: index_ab_def contains_def)
  from delete_removes_own_entries_only [OF h] h show ?thesis by fastforce
qed

text \<open>
  The claim as stated fails on the index that holds the edge \<open>e_ab\<close> from \<open>A\<close> to \<open>B\<close>:
  after \<open>delete(B)\<close> the node \<open>B\<close> is gone from the index and still among \<open>A\<close>'s
  successors and adjacent nodes; after \<open>delete(A)\<close>, \<open>A\<close> is still among \<open>B\<close>'s
  predecessors.
\<close>

theorem delete_leaves_dangling_references:
  "add_edge e_ab None NodeDict = Inr index_ab \<and>
   map_sum fst (\<lambda>s. (contains ''B'' (items s), entries (successors s) ''A'', entries (adjacent_nodes s) ''A''))
     (nd_delete ''B'' index_ab)
     = Inr (False, [(''B'', Node ''B'')], [(''B'', Node ''B'')]) \<and>
   map_sum fst (\<lambda>s. (contains ''A'' (items s), entries (predecessors s) ''B''))
     (nd_delete ''A'' index_ab)
     = Inr (False, [(''A'', Node ''A'')])"
  by code_simp

section \<open>Setting a value in a BaseDict\<close>

text \<open>
  C5. The claim: \<open>set(key, value)\<close> on a key that is present keeps the key's related
  record. The code: \<open>__setitem__\<close> stores a new empty record under every key it is given.
  On the index that holds \<open>e_ab\<close>, the record of \<open>A\<close> holds \<open>B\<close> and \<open>e_ab\<close>; after
  \<open>index['A'] = Node('A')\<close> it is empty.
\<close>

theorem setitem_replaces_related_record:
  "record_of key (bd_setitem key val' s) = RelatedObjects \<and>
   contains ''A'' (items index_ab) \<and>
   record_of ''A'' index_ab = \<lparr>nodes = [(''B'', Node ''B'')], edges = [(''e1'', e_ab)], paths = []\<rparr> \<and>
   record_of ''A'' (bd_setitem ''A'' (Node ''A'') index_ab) = \<lparr>nodes = [], edges = [], paths = []\<rparr>"
  by (simp add: bd_setitem_def record_of_def map_of_setitem index_ab_def contains_def
      RelatedObjects_def)

section \<open>Directedness of an EdgeDict\<close>

text \<open>
  C3, as the code has it. \<open>directed\<close> is \<open>True\<close> exactly when every stored edge is directed,
  which includes the index without edges; \<open>False\<close> exactly when the index is not empty
  and no stored edge is directed; and \<open>None\<close> exactly when the index holds a directed and
  an undirected edge.
\<close>

theorem directed_of_edge_dict:
  "(ed_directed s = Some True \<longleftrightarrow> (\<forall>e \<in> set (map snd (items s)). edge_directed e)) \<and>
   (ed_directed s = Some False \<longleftrightarrow>
      items s \<noteq> [] \<and> (\<forall>e \<in> set (map snd (items s)). \<not> edge_directed e)) \<and>
   (ed_directed s = None \<longleftrightarrow>
      (\<exists>e \<in> set (map snd (items s)). edge_directed e) \<and>
      (\<exists>e \<in> set (map snd (items s)). \<not> edge_directed e))"
  by (cases "items s") (auto simp: ed_directed_def list_all_iff list_ex_iff)

theorem directed_of_edge_dict_witness:
  "ed_directed \<lparr>items = [(''e1'', e_ab)], related = []\<rparr> = Some True \<and>
   ed_directed \<lparr>items = [(''e4'', e_undirected)], related = []\<rparr> = Some False \<and>
   ed_directed \<lparr>items = [(''e1'', e_ab), (''e4'', e_undirected)], related = []\<rparr> = None"
  using directed_of_edge_dict [of "\<lparr>items = [(''e1'', e_ab)], related = []\<rparr>"]
    directed_of_edge_dict [of "\<lparr>items = [(''e4'', e_undirected)], related = []\<rparr>"]
    directed_of_edge_dict [of "\<lparr>items = [(''e1'', e_ab), (''e4'', e_undirected)], related = []\<rparr>"]
  by (simp add: e_ab_def e_undirected_def)

text \<open>The claim as stated fails on the index without edges, where \<open>directed\<close> is \<open>True\<close>.\<close>

theorem directed_of_empty_edge_dict:
  "ed_directed \<lparr>items = [], related = []\<rparr> = Some True"
  by (simp add: ed_directed_def)

section \<open>Times and sorted lists\<close>

lemma NegInf_least [simp]: "NegInf \<le> (x :: 'a::linorder time)"
  by simp

lemma PosInf_greatest [simp]: "(x :: 'a::linorder time) \<le> PosInf"
  by (cases x) simp_all

lemma less_PosInf: "(x :: 'a::linorder time) < PosInf \<longleftrightarrow> x \<noteq> PosInf"
  by (cases x) (simp_all add: less_time_def)

lemma NegInf_less: "NegInf < (x :: 'a::linorder time) \<longleftrightarrow> x \<noteq> NegInf"
  by (cases x) (simp_all add: less_time_def)

lemma le_NegInf: "(x :: 'a::linorder time) \<le> NegInf \<longleftrightarrow> x = NegInf"
  by (cases x) simp_all

lemma PosInf_le: "PosInf \<le> (x :: 'a::linorder time) \<longleftrightarrow> x = PosInf"
  by (cases x) simp_all

lemma find_sorted_least:
  "sorted (map f xs) \<Longrightarrow> find P xs = Some x \<Longrightarrow> y \<in> set xs \<Longrightarrow> P y \<Longrightarrow> f x \<le> f y"
  by (induction xs) (auto split: if_splits)

lemma find_rev_sorted_greatest:
  "sorted (rev (map f xs)) \<Longrightarrow> find P xs = Some x \<Longrightarrow> y \<in> set xs \<Longrightarrow> P y \<Longrightarrow> f y \<le> f x"
  by (induction xs) (auto simp: sorted_append split: if_splits)

lemma find_Some_in: "find P xs = Some x \<Longrightarrow> x \<in> set xs \<and> P x"
  by (induction xs) (auto split: if_splits)

lemma sort_key_head_in: "sort_key f xs = y # ys \<Longrightarrow> y \<in> set xs"
  using set_sort [of f xs] by auto

lemma sort_key_head_least:
  assumes "sort_key f xs = y # ys" and "z \<in> set xs"
  shows "f y \<le> f z"
proof -
  have "sorted (map f (y # ys))" using sorted_sort_key [of f xs] assms(1) by simp
  moreover have "set (y # ys) = set xs" using set_sort [of f xs] assms(1) by simp
  ultimately show ?thesis using assms(2) by auto
qed

lemma sort_key_last_in: "rev (sort_key f xs) = y # ys \<Longrightarrow> y \<in> set xs"
  using set_sort [of f xs] set_rev [of "sort_key f xs"] by auto

lemma sort_key_last_greatest:
  assumes "rev (sort_key f xs) = y # ys" and "z \<in> set xs"
  shows "f z \<le> f y"
proof -
  from assms(1) have eq: "sort_key f xs = rev ys @ [y]"
    by (metis rev.simps(2) rev_rev_ident)
  have "sorted (map f (rev ys @ [y]))" using sorted_sort_key [of f xs] eq by simp
  moreover have "set (rev ys @ [y]) = set xs" using set_sort [of f xs] eq by simp
  ultimately show ?thesis using assms(2)
    by (auto simp: sorted_append)
qed

lemma it_begin_Min:
  "t \<noteq> [] \<Longrightarrow> it_begin t = Min (set (boundaries t))"
  by (cases t) (simp_all add: it_begin_def boundaries_def Min.set_eq_fold [symmetric] split: list.splits)

lemma it_end_Max:
  "t \<noteq> [] \<Longrightarrow> it_end t = Max (set (boundaries t))"
  by (cases t) (simp_all add: it_end_def boundaries_def Max.set_eq_fold [symmetric] split: list.splits)

lemma set_boundaries: "set (boundaries t) = iv_begin ` set t \<union> iv_end ` set t"
  by (simp add: boundaries_def)

section \<open>Begin and end of a tree\<close>

lemma tec_begin_finite:
  fixes c :: "'a::{linorder, zero} temporal_edge_collection"
  assumes wf: "well_formed (intervals c)" and F: "finite_bounds (intervals c) \<noteq> {}"
  shows "tec_begin True c = Inr (Min (finite_bounds (intervals c)))"
proof -
  let ?t = "intervals c"
  let ?F = "finite_bounds ?t"
  let ?B = "iv_begin ` set ?t" and ?E = "iv_end ` set ?t"
  have finF: "finite ?F" by (simp add: finite_bounds_def)
  from F have ne: "?t \<noteq> []" by (auto simp: finite_bounds_def boundaries_def)
  have lt: "\<And>iv. iv \<in> set ?t \<Longrightarrow> iv_begin iv < iv_end iv"
    using wf by (simp add: well_formed_def)
  have B_fin: "\<And>iv. iv \<in> set ?t \<Longrightarrow> iv_begin iv < PosInf"
    using lt by (meson PosInf_greatest less_le_trans)
  have E_fin: "\<And>iv. iv \<in> set ?t \<Longrightarrow> NegInf < iv_end iv"
    using lt by (meson NegInf_least le_less_trans)
  from ne have "sorted_by_end ?t \<noteq> []"
    by (metis length_sort list.size(3) length_0_conv sorted_by_end_def)
  then obtain iv ivs where sbe: "sorted_by_end ?t = iv # ivs" by (cases "sorted_by_end ?t") auto
  have iv_in: "iv \<in> set ?t"
    using sort_key_head_in [OF sbe [unfolded sorted_by_end_def]] .
  have iv_least: "\<And>z. z \<in> set ?t \<Longrightarrow> iv_end iv \<le> iv_end z"
    using sort_key_head_least [OF sbe [unfolded sorted_by_end_def]] .
  define b1 where "b1 = (case find (\<lambda>iv. NegInf < iv_begin iv) (sorted_intervals ?t) of
                         None \<Rightarrow> it_begin ?t | Some iv \<Rightarrow> iv_begin iv)"
  have result: "tec_begin True c =
      Inr (min (if b1 = NegInf \<and> iv_end iv < PosInf then iv_end iv else b1) (iv_end iv))"
    by (simp add: tec_begin_def Let_def sbe b1_def)
  have srt: "sorted (map (\<lambda>iv. (iv_begin iv, iv_end iv)) (sorted_intervals ?t))"
    by (simp add: sorted_intervals_def)
  have set_srt: "set (sorted_intervals ?t) = set ?t"
    by (simp add: sorted_intervals_def)
  show ?thesis
  proof (cases "find (\<lambda>iv. NegInf < iv_begin iv) (sorted_intervals ?t)")
    case (Some x)
    then have b1: "b1 = iv_begin x" by (simp add: b1_def)
    from find_Some_in [OF Some] set_srt have x_in: "x \<in> set ?t" and x_fin: "NegInf < iv_begin x"
      by auto
    have x_least: "iv_begin x \<le> iv_begin z" if "z \<in> set ?t" "NegInf < iv_begin z" for z
    proof -
      from that set_srt have "z \<in> set (sorted_intervals ?t)" by simp
      from find_sorted_least [OF srt Some this that(2)]
      show ?thesis by (auto simp: less_eq_prod_def)
    qed
    from x_fin have "iv_begin x \<noteq> NegInf" by (simp add: NegInf_less)
    then have res: "tec_begin True c = Inr (min (iv_begin x) (iv_end iv))"
      by (simp add: result b1)
    have "Min ?F = min (iv_begin x) (iv_end iv)"
    proof (rule Min_eqI [OF finF])
      fix y assume "y \<in> ?F"
      then have y: "y \<in> ?B \<union> ?E" "NegInf < y"
        by (auto simp: finite_bounds_def set_boundaries)
      then show "min (iv_begin x) (iv_end iv) \<le> y"
        using x_least iv_least by (auto simp: min_le_iff_disj)
    next
      show "min (iv_begin x) (iv_end iv) \<in> ?F"
      proof (cases "iv_begin x \<le> iv_end iv")
        case True
        then show ?thesis using x_in x_fin B_fin [OF x_in]
          by (auto simp: finite_bounds_def set_boundaries min_def)
      next
        case False
        then have "iv_end iv < iv_begin x" by simp
        with B_fin [OF x_in] have "iv_end iv < PosInf" by (meson less_trans)
        with False show ?thesis using iv_in E_fin [OF iv_in]
          by (auto simp: finite_bounds_def set_boundaries min_def)
      qed
    qed
    with res show ?thesis by simp
  next
    case None
    then have allB: "\<And>z. z \<in> set ?t \<Longrightarrow> iv_begin z = NegInf"
      using set_srt by (auto simp: find_None_iff NegInf_less)
    have "it_begin ?t = NegInf"
    proof -
      have "NegInf \<in> set (boundaries ?t)" using allB [OF iv_in] iv_in
        by (auto simp: set_boundaries intro: rev_image_eqI)
      then have "Min (set (boundaries ?t)) \<le> NegInf" by (intro Min_le) simp_all
      then show ?thesis by (simp add: it_begin_Min [OF ne] le_NegInf)
    qed
    with None have b1: "b1 = NegInf" by (simp add: b1_def)
    from F obtain y where y: "y \<in> ?F" by auto
    then have "NegInf < y" "y < PosInf" "y \<in> ?B \<union> ?E"
      by (auto simp: finite_bounds_def set_boundaries)
    with allB have "y \<in> ?E" by auto
    then have "iv_end iv \<le> y" using iv_least by auto
    with \<open>y < PosInf\<close> have fin: "iv_end iv < PosInf" by (meson le_less_trans)
    then have res: "tec_begin True c = Inr (iv_end iv)"
      by (simp add: result b1)
    have "Min ?F = iv_end iv"
    proof (rule Min_eqI [OF finF])
      fix y assume "y \<in> ?F"
      then have "NegInf < y" "y \<in> ?B \<union> ?E"
        by (auto simp: finite_bounds_def set_boundaries)
      with allB have "y \<in> ?E" by auto
      then show "iv_end iv \<le> y" using iv_least by auto
    next
      show "iv_end iv \<in> ?F" using iv_in fin E_fin [OF iv_in]
        by (auto simp: finite_bounds_def set_boundaries)
    qed
    with res show ?thesis by simp
  qed
qed

lemma tec_end_finite:
  fixes c :: "'a::{linorder, zero} temporal_edge_collection"
  assumes wf: "well_formed (intervals c)" and F: "finite_bounds (intervals c) \<noteq> {}"
  shows "tec_end True c = Inr (Max (finite_bounds (intervals c)))"
proof -
  let ?t = "intervals c"
  let ?F = "finite_bounds ?t"
  let ?B = "iv_begin ` set ?t" and ?E = "iv_end ` set ?t"
  have finF: "finite ?F" by (simp add: finite_bounds_def)
  from F have ne: "?t \<noteq> []" by (auto simp: finite_bounds_def boundaries_def)
  have lt: "\<And>iv. iv \<in> set ?t \<Longrightarrow> iv_begin iv < iv_end iv"
    using wf by (simp add: well_formed_def)
  have B_fin: "\<And>iv. iv \<in> set ?t \<Longrightarrow> iv_begin iv < PosInf"
    using lt by (meson PosInf_greatest less_le_trans)
  have E_fin: "\<And>iv. iv \<in> set ?t \<Longrightarrow> NegInf < iv_end iv"
    using lt by (meson NegInf_least le_less_trans)
  from ne have "rev (sorted_intervals ?t) \<noteq> []"
    by (metis length_sort list.size(3) length_0_conv sorted_intervals_def rev_is_Nil_conv)
  then obtain iv ivs where last: "rev (sorted_intervals ?t) = iv # ivs"
    by (cases "rev (sorted_intervals ?t)") auto
  have iv_in: "iv \<in> set ?t"
    using sort_key_last_in [OF last [unfolded sorted_intervals_def]] .
  have iv_greatest: "iv_begin z \<le> iv_begin iv" if "z \<in> set ?t" for z
    using sort_key_last_greatest [OF last [unfolded sorted_intervals_def] that]
    by (auto simp: less_eq_prod_def)
  define e1 where "e1 = (case find (\<lambda>iv. iv_end iv < PosInf) (sorted_by_end_reverse ?t) of
                         None \<Rightarrow> it_end ?t | Some iv \<Rightarrow> iv_end iv)"
  have result: "tec_end True c =
      Inr (max (iv_begin iv) (if NegInf < iv_begin iv \<and> e1 = PosInf then iv_begin iv else e1))"
    by (simp add: tec_end_def Let_def last e1_def)
  have srt: "sorted (rev (map iv_end (sorted_by_end_reverse ?t)))"
    by (simp add: sorted_by_end_reverse_def rev_map [symmetric])
  have set_srt: "set (sorted_by_end_reverse ?t) = set ?t"
    by (simp add: sorted_by_end_reverse_def)
  show ?thesis
  proof (cases "find (\<lambda>iv. iv_end iv < PosInf) (sorted_by_end_reverse ?t)")
    case (Some x)
    then have e1: "e1 = iv_end x" by (simp add: e1_def)
    from find_Some_in [OF Some] set_srt have x_in: "x \<in> set ?t" and x_fin: "iv_end x < PosInf"
      by auto
    have x_greatest: "iv_end z \<le> iv_end x" if "z \<in> set ?t" "iv_end z < PosInf" for z
    proof -
      from that set_srt have "z \<in> set (sorted_by_end_reverse ?t)" by simp
      from find_rev_sorted_greatest [OF srt Some this that(2)] show ?thesis .
    qed
    from x_fin have "iv_end x \<noteq> PosInf" by (simp add: less_PosInf)
    then have res: "tec_end True c = Inr (max (iv_begin iv) (iv_end x))"
      by (simp add: result e1)
    have "Max ?F = max (iv_begin iv) (iv_end x)"
    proof (rule Max_eqI [OF finF])
      fix y assume "y \<in> ?F"
      then have y: "y \<in> ?B \<union> ?E" "y < PosInf"
        by (auto simp: finite_bounds_def set_boundaries)
      then show "y \<le> max (iv_begin iv) (iv_end x)"
        using x_greatest iv_greatest by (auto simp: le_max_iff_disj)
    next
      show "max (iv_begin iv) (iv_end x) \<in> ?F"
      proof (cases "iv_begin iv \<le> iv_end x")
        case True
        then show ?thesis using x_in x_fin E_fin [OF x_in]
          by (auto simp: finite_bounds_def set_boundaries max_def)
      next
        case False
        then have "iv_end x < iv_begin iv" by simp
        with E_fin [OF x_in] have "NegInf < iv_begin iv" by (meson less_trans)
        with False show ?thesis using iv_in B_fin [OF iv_in]
          by (auto simp: finite_bounds_def set_boundaries max_def)
      qed
    qed
    with res show ?thesis by simp
  next
    case None
    then have allE: "\<And>z. z \<in> set ?t \<Longrightarrow> iv_end z = PosInf"
      using set_srt by (auto simp: find_None_iff less_PosInf)
    have "it_end ?t = PosInf"
    proof -
      have "PosInf \<in> set (boundaries ?t)" using allE [OF iv_in] iv_in
        by (auto simp: set_boundaries intro: rev_image_eqI)
      then have "PosInf \<le> Max (set (boundaries ?t))" by (intro Max_ge) simp_all
      then show ?thesis by (simp add: it_end_Max [OF ne] PosInf_le)
    qed
    with None have e1: "e1 = PosInf" by (simp add: e1_def)
    from F obtain y where y: "y \<in> ?F" by auto
    then have "NegInf < y" "y < PosInf" "y \<in> ?B \<union> ?E"
      by (auto simp: finite_bounds_def set_boundaries)
    with allE have "y \<in> ?B" by auto
    then have "y \<le> iv_begin iv" using iv_greatest by auto
    with \<open>NegInf < y\<close> have fin: "NegInf < iv_begin iv" by (meson less_le_trans)
    then have res: "tec_end True c = Inr (iv_begin iv)"
      by (simp add: result e1)
    have "Max ?F = iv_begin iv"
    proof (rule Max_eqI [OF finF])
      fix y assume "y \<in> ?F"
      then have "y < PosInf" "y \<in> ?B \<union> ?E"
        by (auto simp: finite_bounds_def set_boundaries)
      with allE have "y \<in> ?B" by auto
      then show "y \<le> iv_begin iv" using iv_greatest by auto
    next
      show "iv_begin iv \<in> ?F" using iv_in fin B_fin [OF iv_in]
        by (auto simp: finite_bounds_def set_boundaries)
    qed
    with res show ?thesis by simp
  qed
qed

section \<open>Splitting and envelope removal\<close>

lemma set_it_add:
  "\<not> is_null iv \<Longrightarrow> \<exists>t'. it_add iv t = Inr t' \<and> set t' = insert iv (set t)"
  by (auto simp: it_add_def)

lemma set_it_update:
  "\<forall>iv \<in> set ivs. \<not> is_null iv \<Longrightarrow> \<exists>t'. it_update ivs t = Inr t' \<and> set t' = set t \<union> set ivs"
proof (induction ivs arbitrary: t)
  case Nil
  then show ?case by simp
next
  case (Cons iv ivs)
  then obtain t1 where t1: "it_add iv t = Inr t1" "set t1 = insert iv (set t)"
    using set_it_add [of iv t] by auto
  from Cons.IH [of t1] Cons.prems obtain t' where "it_update ivs t1 = Inr t'" "set t' = set t1 \<union> set ivs"
    by auto
  with t1 show ?case by auto
qed

lemma set_it_slice:
  "\<exists>t'. it_slice p t = Inr t' \<and>
     set t' = {iv \<in> set t. \<not> straddles p iv} \<union>
       (\<Union>iv \<in> {iv \<in> set t. straddles p iv}.
          {(iv_begin iv, p, iv_data iv), (p, iv_end iv, iv_data iv)})"
proof -
  let ?hit = "[iv \<leftarrow> it_at p t. iv_begin iv < p]"
  let ?ins = "concat (map (\<lambda>iv. [(iv_begin iv, p, iv_data iv), (p, iv_end iv, iv_data iv)]) ?hit)"
  have hit: "set ?hit = {iv \<in> set t. straddles p iv}"
    by (auto simp: it_at_def straddles_def)
  have "\<forall>iv \<in> set ?ins. \<not> is_null iv"
    by (auto simp: it_at_def is_null_def iv_begin_def iv_end_def)
  from set_it_update [OF this, of "it_difference_update ?hit t"]
  obtain t' where t': "it_update ?ins (it_difference_update ?hit t) = Inr t'"
    "set t' = set (it_difference_update ?hit t) \<union> set ?ins" by auto
  have "set (it_difference_update ?hit t) = {iv \<in> set t. \<not> straddles p iv}"
    using hit by (auto simp: it_difference_update_def)
  moreover have "set ?ins = (\<Union>iv \<in> {iv \<in> set t. straddles p iv}.
          {(iv_begin iv, p, iv_data iv), (p, iv_end iv, iv_data iv)})"
    using hit by auto
  ultimately show ?thesis using t' by (auto simp: it_slice_def Let_def)
qed

lemma iv_simps [simp]:
  "iv_begin (b, e, d) = b" "iv_end (b, e, d) = e" "iv_data (b, e, d) = d"
  by (simp_all add: iv_begin_def iv_end_def iv_data_def)

lemma it_slice_props:
  assumes wf: "well_formed t"
  shows "\<exists>t'. it_slice p t = Inr t' \<and> well_formed t' \<and>
    (\<forall>iv \<in> set t'. \<not> straddles p iv) \<and>
    (\<forall>q. (\<forall>iv \<in> set t. \<not> straddles q iv) \<longrightarrow> (\<forall>iv \<in> set t'. \<not> straddles q iv)) \<and>
    (\<forall>lo. (\<forall>iv \<in> set t. lo \<le> iv_begin iv) \<longrightarrow> (\<forall>iv \<in> set t'. lo \<le> iv_begin iv)) \<and>
    (\<forall>hi. (\<forall>iv \<in> set t. iv_end iv \<le> hi) \<longrightarrow> (\<forall>iv \<in> set t'. iv_end iv \<le> hi))"
proof -
  from set_it_slice [of p t] obtain t' where t': "it_slice p t = Inr t'"
    and set: "set t' = {iv \<in> set t. \<not> straddles p iv} \<union>
       (\<Union>iv \<in> {iv \<in> set t. straddles p iv}.
          {(iv_begin iv, p, iv_data iv), (p, iv_end iv, iv_data iv)})" by blast
  have 1: "well_formed t'"
    using wf by (auto simp: well_formed_def set straddles_def)
  have 2: "\<forall>iv \<in> set t'. \<not> straddles p iv"
    by (auto simp: set straddles_def)
  have 3: "\<forall>iv \<in> set t'. \<not> straddles q iv" if "\<forall>iv \<in> set t. \<not> straddles q iv" for q
    using that by (fastforce simp: set straddles_def)
  have 4: "\<forall>iv \<in> set t'. lo \<le> iv_begin iv" if "\<forall>iv \<in> set t. lo \<le> iv_begin iv" for lo
    using that by (fastforce simp: set straddles_def)
  have 5: "\<forall>iv \<in> set t'. iv_end iv \<le> hi" if "\<forall>iv \<in> set t. iv_end iv \<le> hi" for hi
    using that by (fastforce simp: set straddles_def)
  show ?thesis
    using t' 1 2 3 4 5 by (intro exI [of _ t']) simp
qed

lemma it_begin_le:
  fixes t :: "('a::{linorder, zero}, 'd) interval_tree"
  assumes "iv \<in> set t" shows "it_begin t \<le> iv_begin iv"
proof -
  from assms have ne: "t \<noteq> []" by auto
  have "Min (set (boundaries t)) \<le> iv_begin iv"
    using assms by (intro Min_le) (auto simp: set_boundaries)
  then show ?thesis by (simp add: it_begin_Min [OF ne])
qed

lemma it_end_ge:
  fixes t :: "('a::{linorder, zero}, 'd) interval_tree"
  assumes "iv \<in> set t" shows "iv_end iv \<le> it_end t"
proof -
  from assms have ne: "t \<noteq> []" by auto
  have "iv_end iv \<le> Max (set (boundaries t))"
    using assms by (intro Max_ge) (auto simp: set_boundaries)
  then show ?thesis by (simp add: it_end_Max [OF ne])
qed

lemma set_it_remove_envelop:
  "set (it_remove_envelop lo hi t) =
     {iv \<in> set t. \<not> (lo < hi \<and> lo \<le> iv_begin iv \<and> iv_end iv \<le> hi)}"
  by (auto simp: it_remove_envelop_def it_difference_update_def it_envelop_def)

lemma record_interval_ok:
  assumes "b < en"
  shows "\<exists>c'. record_interval e b en c = Inr c' \<and> set (intervals c') = insert (b, en, e) (set (intervals c))
           \<and> edge_map c' = edge_map c"
proof -
  have "\<not> is_null (b, en, e)" using assms by (simp add: is_null_def)
  from set_it_add [OF this, of "intervals c"] show ?thesis
    by (auto simp: record_interval_def it_addi_def)
qed

lemma tec_add_ok:
  assumes "b < en"
  shows "\<exists>c' e'. tec_add e b en c = Inr c' \<and> set (intervals c') = insert (b, en, e') (set (intervals c))"
proof (cases "contains (edge_uid e) (edge_map c)")
  case True
  then obtain e' where e': "map_of (edge_map c) (edge_uid e) = Some e'"
    using not_contains_map_of [of "edge_uid e" "edge_map c"] by auto
  from record_interval_ok [OF assms, of e' c] True e' show ?thesis
    by (auto simp: tec_add_def if_edge_exists_def)
next
  case False
  from record_interval_ok [OF assms, of e c] False show ?thesis
    by (auto simp: tec_add_def tec_add_new_def)
qed

lemma new_from_intervals_ok:
  assumes "\<forall>iv \<in> set ivs. iv_begin iv < iv_end iv"
  shows "\<exists>c'. new_from_intervals ivs c = Inr c' \<and>
     (\<forall>iv' \<in> set (intervals c'). iv' \<in> set (intervals c) \<or>
        (\<exists>iv \<in> set ivs. iv_begin iv' = iv_begin iv \<and> iv_end iv' = iv_end iv))"
  using assms
proof (induction ivs arbitrary: c)
  case Nil
  then show ?case by simp
next
  case (Cons iv ivs)
  from Cons.prems have "iv_begin iv < iv_end iv" by simp
  from tec_add_ok [OF this, of "iv_data iv" c] obtain c1 e' where
    c1: "tec_add (iv_data iv) (iv_begin iv) (iv_end iv) c = Inr c1"
    "set (intervals c1) = insert (iv_begin iv, iv_end iv, e') (set (intervals c))" by blast
  from Cons.IH [of c1] Cons.prems obtain c' where c': "new_from_intervals ivs c1 = Inr c'"
    "\<forall>iv' \<in> set (intervals c'). iv' \<in> set (intervals c1) \<or>
        (\<exists>iv \<in> set ivs. iv_begin iv' = iv_begin iv \<and> iv_end iv' = iv_end iv)" by auto
  have "\<forall>iv' \<in> set (intervals c'). iv' \<in> set (intervals c) \<or>
        (\<exists>x \<in> set (iv # ivs). iv_begin iv' = iv_begin x \<and> iv_end iv' = iv_end x)"
  proof
    fix iv' assume "iv' \<in> set (intervals c')"
    with c'(2) consider "iv' \<in> set (intervals c1)"
      | "\<exists>x \<in> set ivs. iv_begin iv' = iv_begin x \<and> iv_end iv' = iv_end x" by blast
    then show "iv' \<in> set (intervals c) \<or>
        (\<exists>x \<in> set (iv # ivs). iv_begin iv' = iv_begin x \<and> iv_end iv' = iv_end x)"
      using c1(2) by cases auto
  qed
  with c1(1) c'(1) show ?case by simp
qed

lemma slice_result_within:
  fixes c :: "'a::{linorder, zero} temporal_edge_collection"
  assumes wf: "well_formed (intervals c)"
  shows "\<exists>c'. tec_slice b e c = Inr c' \<and> well_formed (intervals c') \<and>
     (\<forall>iv \<in> set (intervals c'). b \<le> iv_begin iv \<and> iv_end iv \<le> e)"
proof -
  let ?t = "intervals c"
  have lo: "\<forall>iv \<in> set ?t. it_begin ?t \<le> iv_begin iv" by (simp add: it_begin_le)
  have hi: "\<forall>iv \<in> set ?t. iv_end iv \<le> it_end ?t" by (simp add: it_end_ge)
  from it_slice_props [OF wf, of b] obtain t1 where p1:
    "it_slice b ?t = Inr t1 \<and> well_formed t1 \<and>
    (\<forall>iv \<in> set t1. \<not> straddles b iv) \<and>
    (\<forall>q. (\<forall>iv \<in> set ?t. \<not> straddles q iv) \<longrightarrow> (\<forall>iv \<in> set t1. \<not> straddles q iv)) \<and>
    (\<forall>lo. (\<forall>iv \<in> set ?t. lo \<le> iv_begin iv) \<longrightarrow> (\<forall>iv \<in> set t1. lo \<le> iv_begin iv)) \<and>
    (\<forall>hi. (\<forall>iv \<in> set ?t. iv_end iv \<le> hi) \<longrightarrow> (\<forall>iv \<in> set t1. iv_end iv \<le> hi))" ..
  then have s1: "it_slice b ?t = Inr t1" and wf1: "well_formed t1"
    and nb1: "\<forall>iv \<in> set t1. \<not> straddles b iv" by simp_all
  from p1 lo have lo1: "\<forall>iv \<in> set t1. it_begin ?t \<le> iv_begin iv" by blast
  from p1 hi have hi1: "\<forall>iv \<in> set t1. iv_end iv \<le> it_end ?t" by blast
  from it_slice_props [OF wf1, of e] obtain t2 where p2:
    "it_slice e t1 = Inr t2 \<and> well_formed t2 \<and>
    (\<forall>iv \<in> set t2. \<not> straddles e iv) \<and>
    (\<forall>q. (\<forall>iv \<in> set t1. \<not> straddles q iv) \<longrightarrow> (\<forall>iv \<in> set t2. \<not> straddles q iv)) \<and>
    (\<forall>lo. (\<forall>iv \<in> set t1. lo \<le> iv_begin iv) \<longrightarrow> (\<forall>iv \<in> set t2. lo \<le> iv_begin iv)) \<and>
    (\<forall>hi. (\<forall>iv \<in> set t1. iv_end iv \<le> hi) \<longrightarrow> (\<forall>iv \<in> set t2. iv_end iv \<le> hi))" ..
  then have s2: "it_slice e t1 = Inr t2" and wf2: "well_formed t2"
    and ne2: "\<forall>iv \<in> set t2. \<not> straddles e iv" by simp_all
  from p2 nb1 have nb2: "\<forall>iv \<in> set t2. \<not> straddles b iv" by blast
  from p2 lo1 have lo2: "\<forall>iv \<in> set t2. it_begin ?t \<le> iv_begin iv" by blast
  from p2 hi1 have hi2: "\<forall>iv \<in> set t2. iv_end iv \<le> it_end ?t" by blast
  note t1 = s1 and t2 = s2 wf2 ne2 nb2 lo2 hi2
  let ?t3 = "it_remove_envelop (it_begin ?t) b t2"
  let ?t4 = "it_remove_envelop e (it_end ?t) ?t3"
  have within: "b \<le> iv_begin iv \<and> iv_end iv \<le> e \<and> iv_begin iv < iv_end iv" if "iv \<in> set ?t4" for iv
  proof -
    from that have in2: "iv \<in> set t2"
      and keep3: "\<not> (it_begin ?t < b \<and> it_begin ?t \<le> iv_begin iv \<and> iv_end iv \<le> b)"
      and keep4: "\<not> (e < it_end ?t \<and> e \<le> iv_begin iv \<and> iv_end iv \<le> it_end ?t)"
      by (auto simp: set_it_remove_envelop)
    from in2 t2 have nul: "iv_begin iv < iv_end iv" and nb: "\<not> straddles b iv" and ne: "\<not> straddles e iv"
      and lo': "it_begin ?t \<le> iv_begin iv" and hi': "iv_end iv \<le> it_end ?t"
      by (auto simp: well_formed_def)
    have "b \<le> iv_begin iv"
    proof (rule ccontr)
      assume "\<not> b \<le> iv_begin iv"
      then have "iv_begin iv < b" by simp
      with nb have "iv_end iv \<le> b" by (auto simp: straddles_def)
      moreover from lo' \<open>iv_begin iv < b\<close> have "it_begin ?t < b" by (rule le_less_trans)
      ultimately show False using keep3 lo' by simp
    qed
    moreover have "iv_end iv \<le> e"
    proof (rule ccontr)
      assume "\<not> iv_end iv \<le> e"
      then have "e < iv_end iv" by simp
      with ne have "e \<le> iv_begin iv" by (auto simp: straddles_def)
      moreover from \<open>e < iv_end iv\<close> hi' have "e < it_end ?t" by (rule less_le_trans)
      ultimately show False using keep4 hi' by simp
    qed
    ultimately show ?thesis using nul by simp
  qed
  then have "\<forall>iv \<in> set ?t4. iv_begin iv < iv_end iv" by simp
  from new_from_intervals_ok [OF this, of TemporalEdgeCollection]
  obtain c' where c': "new_from_intervals ?t4 TemporalEdgeCollection = Inr c'"
    "\<forall>iv' \<in> set (intervals c'). \<exists>iv \<in> set ?t4. iv_begin iv' = iv_begin iv \<and> iv_end iv' = iv_end iv"
    by (auto simp: TemporalEdgeCollection_def)
  have "tec_slice b e c = Inr c'"
    using s1 s2 c'(1) by (simp add: tec_slice_def it_copy_def Let_def)
  moreover have "well_formed (intervals c')"
    using c'(2) within by (fastforce simp: well_formed_def)
  moreover have "\<forall>iv \<in> set (intervals c'). b \<le> iv_begin iv \<and> iv_end iv \<le> e"
    using c'(2) within by fastforce
  ultimately show ?thesis by blast
qed

section \<open>The earliest and the latest finite time\<close>

lemma time_less_simps [simp]:
  "NegInf < Fin a" "Fin a < PosInf" "NegInf < (PosInf :: 'a::linorder time)"
  "Fin a < Fin b \<longleftrightarrow> a < b" "\<not> Fin a < NegInf" "\<not> PosInf < Fin a"
  "\<not> x < (NegInf :: 'a time)" "\<not> PosInf < (x :: 'a time)"
  by (cases x; auto simp: less_time_def)+

text \<open>
  C7. For a collection whose tree holds exactly the intervals \<open>[-inf, 3)\<close> and \<open>[1, 5)\<close>,
  \<open>begin(finite=True)\<close> returns \<open>1\<close> and \<open>end(finite=True)\<close> returns \<open>5\<close>. In general, for a
  tree without null intervals that has a bound that is a number, \<open>begin(finite=True)\<close>
  returns the earliest and \<open>end(finite=True)\<close> the latest of the bounds (begins and ends)
  that are numbers: the infinite bounds are skipped.
\<close>

theorem finite_begin_and_end:
  fixes c :: "'a::{linorder, zero} temporal_edge_collection"
    and d :: "int temporal_edge_collection"
  shows
  "(set (intervals d) = {(NegInf, Fin 3, e1), (Fin 1, Fin 5, e2)} \<longrightarrow>
      tec_begin True d = Inr (Fin 1) \<and> tec_end True d = Inr (Fin 5)) \<and>
   (well_formed (intervals c) \<and> finite_bounds (intervals c) \<noteq> {} \<longrightarrow>
      tec_begin True c = Inr (Min (finite_bounds (intervals c))) \<and>
      tec_end True c = Inr (Max (finite_bounds (intervals c))))"
proof (intro conjI impI)
  assume d: "set (intervals d) = {(NegInf, Fin 3, e1), (Fin 1, Fin 5, e2)}"
  then have wf: "well_formed (intervals d)" by (simp add: well_formed_def)
  have F: "finite_bounds (intervals d) = {Fin 1, Fin 3, Fin 5}"
    by (auto simp: finite_bounds_def set_boundaries d)
  then have ne: "finite_bounds (intervals d) \<noteq> {}" by simp
  show "tec_begin True d = Inr (Fin 1)"
    using tec_begin_finite [OF wf ne] by (simp add: F)
  show "tec_end True d = Inr (Fin 5)"
    using tec_end_finite [OF wf ne] by (simp add: F)
next
  assume "well_formed (intervals c) \<and> finite_bounds (intervals c) \<noteq> {}"
  then show "tec_begin True c = Inr (Min (finite_bounds (intervals c)))"
    by (simp add: tec_begin_finite)
next
  assume "well_formed (intervals c) \<and> finite_bounds (intervals c) \<noteq> {}"
  then show "tec_end True c = Inr (Max (finite_bounds (intervals c)))"
    by (simp add: tec_end_finite)
qed

theorem finite_begin_and_end_witness:
  "new_from_intervals [(NegInf, Fin 3, e_ab), (Fin 1, Fin 5, e_ba)] TemporalEdgeCollection
     = Inr two_intervals \<and>
   set (intervals two_intervals) = {(NegInf, Fin 3, e_ab), (Fin 1, Fin 5, e_ba)} \<and>
   well_formed (intervals two_intervals) \<and>
   finite_bounds (intervals two_intervals) \<noteq> {} \<and>
   tec_begin True two_intervals = Inr (Fin 1) \<and> tec_end True two_intervals = Inr (Fin 5) \<and>
   tec_begin True two_intervals = Inr (Min (finite_bounds (intervals two_intervals))) \<and>
   tec_end True two_intervals = Inr (Max (finite_bounds (intervals two_intervals)))"
proof -
  have build: "new_from_intervals [(NegInf, Fin 3, e_ab), (Fin 1, Fin 5, e_ba)] TemporalEdgeCollection
     = Inr two_intervals" by code_simp
  have s: "set (intervals two_intervals) = {(NegInf, Fin 3, e_ab), (Fin 1, Fin 5, e_ba)}"
    by (auto simp: two_intervals_def)
  have wf: "well_formed (intervals two_intervals)"
    by (simp add: well_formed_def two_intervals_def)
  have "Fin 1 \<in> finite_bounds (intervals two_intervals)"
    by (simp add: finite_bounds_def boundaries_def two_intervals_def)
  then have ne: "finite_bounds (intervals two_intervals) \<noteq> {}" by blast
  from finite_begin_and_end [of two_intervals e_ab e_ba two_intervals] build s wf ne
  show ?thesis by blast
qed

section \<open>Slicing a temporal collection\<close>

text \<open>
  C4. The collection built by adding three edges with the intervals \<open>[0, 5)\<close>, \<open>[3, 8)\<close>
  and \<open>[10, 12)\<close> is sliced by \<open>slice(4, 6)\<close> into a new collection of exactly two edges,
  the first with the interval \<open>[4, 5)\<close> and the second with \<open>[4, 6)\<close>; the third edge is
  absent. In general, for a tree without null intervals, \<open>slice(begin, end)\<close> returns a
  collection, and every interval stored in it is not null and lies within
  \<open>[begin, end)\<close>: it begins at or after \<open>begin\<close> and ends at or before \<open>end\<close>.
\<close>

theorem slice_within_window:
  fixes c :: "'a::{linorder, zero} temporal_edge_collection"
  shows
  "new_from_intervals [(Fin 0, Fin 5, e_ab), (Fin 3, Fin 8, e_ba), (Fin 10, Fin 12, e_cd)]
      TemporalEdgeCollection = Inr three_intervals \<and>
   tec_slice (Fin 4) (Fin 6) three_intervals =
     Inr \<lparr>edge_map = [(''e2'', e_ba), (''e1'', e_ab)],
          intervals = [(Fin 4, Fin 5, e_ab), (Fin 4, Fin 6, e_ba)],
          interval_map = [(e_ba, [(Fin 4, Fin 6)]), (e_ab, [(Fin 4, Fin 5)])]\<rparr> \<and>
   (well_formed (intervals c) \<longrightarrow>
      (\<exists>c'. tec_slice b e c = Inr c' \<and> well_formed (intervals c') \<and>
         (\<forall>iv \<in> set (intervals c'). b \<le> iv_begin iv \<and> iv_end iv \<le> e)))"
proof (intro conjI impI)
  show "new_from_intervals [(Fin 0, Fin 5, e_ab), (Fin 3, Fin 8, e_ba), (Fin 10, Fin 12, e_cd)]
      TemporalEdgeCollection = Inr three_intervals"
    by code_simp
  show "tec_slice (Fin 4) (Fin 6) three_intervals =
     Inr \<lparr>edge_map = [(''e2'', e_ba), (''e1'', e_ab)],
          intervals = [(Fin 4, Fin 5, e_ab), (Fin 4, Fin 6, e_ba)],
          interval_map = [(e_ba, [(Fin 4, Fin 6)]), (e_ab, [(Fin 4, Fin 5)])]\<rparr>"
    by code_simp
  assume "well_formed (intervals c)"
  then show "\<exists>c'. tec_slice b e c = Inr c' \<and> well_formed (intervals c') \<and>
         (\<forall>iv \<in> set (intervals c'). b \<le> iv_begin iv \<and> iv_end iv \<le> e)"
    by (rule slice_result_within)
qed

theorem slice_within_window_witness:
  "well_formed (intervals three_intervals) \<and>
   (\<exists>c'. tec_slice (Fin 4) (Fin 6) three_intervals = Inr c' \<and> well_formed (intervals c') \<and>
         (\<forall>iv \<in> set (intervals c'). Fin 4 \<le> iv_begin iv \<and> iv_end iv \<le> Fin 6))"
proof -
  have wf: "well_formed (intervals three_intervals)"
    by (simp add: well_formed_def three_intervals_def)
  from slice_within_window [of three_intervals "Fin 4" "Fin 6"] wf show ?thesis by blast
qed

section \<open>The interval of a temporal edge\<close>














section \<open>Paths in a RelatedObjects record\<close>

text \<open>
  C8. The claim: \<open>add_path(p)\<close> adds \<open>p\<close> to the record's path set under \<open>p\<close>'s
  identifier, and \<open>remove_path(p)\<close> then succeeds. The code: \<open>add_path\<close> raises
  \<open>TypeError\<close> on every record and path, so nothing is added, and \<open>remove_path\<close> on the
  unchanged new record raises \<open>KeyError\<close>.
\<close>

theorem add_path_raises_TypeError:
  "rel_add_path r p = Inl TypeError \<and>
   rel_remove_path RelatedObjects (Path ''p1'' [''a'', ''b''] [''e1'']) = Inl KeyError"
  by (simp add: rel_add_path_def rel_remove_path_def set_setitem_def set_remove_def
      RelatedObjects_def)

end
